theory Spec2Isabelle
  imports Main "HOL-Library.Word"
begin

unbundle bit_operations_syntax

section \<open>Data model\<close>

text \<open>
  The bytes of an \<^verbatim>\<open>ArrayBuffer\<close> are a list of 8-bit words.
  A JavaScript string is a sequence of UTF-16 code units.  Offsets and lengths are
  JavaScript numbers that stay far below \<open>2^53\<close>, so they are natural numbers here.
  The only exception the codec can meet is the \<^verbatim>\<open>RangeError\<close> that \<^verbatim>\<open>DataView\<close> reads and
  \<^verbatim>\<open>TypedArray.prototype.set\<close> raise when they are asked to leave their buffer.
\<close>

type_synonym byte = "8 word"
type_synonym u32 = "32 word"
type_synonym jsstring = "16 word list"

datatype error = RangeError

text \<open>
  A \<^verbatim>\<open>Uint8Array\<close> is a window on an \<^verbatim>\<open>ArrayBuffer\<close>: the bytes of the buffer before the
  window, the elements of the array, and the bytes of the buffer after it.  Indexing,
  \<^verbatim>\<open>length\<close>, \<^verbatim>\<open>slice\<close> and \<^verbatim>\<open>set\<close> work on the elements; \<^verbatim>\<open>.buffer\<close> is the whole buffer,
  and a \<^verbatim>\<open>DataView\<close> on it counts its offsets from the start of the buffer.  An array made
  by \<^verbatim>\<open>new Uint8Array(n)\<close> or \<^verbatim>\<open>new Uint8Array(buffer)\<close> spans its buffer.
\<close>

datatype uint8array =
  Uint8Array (before: "byte list") (elements: "byte list") (after: "byte list")

definition buffer_of :: "uint8array \<Rightarrow> byte list" where
  "buffer_of a = before a @ elements a @ after a"

definition byteOffset :: "uint8array \<Rightarrow> nat" where
  "byteOffset a = length (before a)"

definition whole :: "byte list \<Rightarrow> uint8array" where
  "whole bs = Uint8Array [] bs []"

text \<open>
  Storing a number in a \<^verbatim>\<open>Uint8Array\<close> keeps it modulo 256; a code unit of a string is
  a number modulo 65536.
\<close>

definition u8 :: "nat \<Rightarrow> byte" where
  "u8 n = of_nat n"

definition u16 :: "nat \<Rightarrow> 16 word" where
  "u16 n = of_nat n"

text \<open>A string literal of the source, all of whose characters are ASCII.\<close>

definition lit :: "string \<Rightarrow> jsstring" where
  "lit s = map (\<lambda>c. u16 (of_char c)) s"

text \<open>\<^verbatim>\<open>arr[i]\<close> on a typed array: \<^verbatim>\<open>undefined\<close> (here \<open>None\<close>) outside the array.\<close>

definition byte_at :: "byte list \<Rightarrow> nat \<Rightarrow> byte option" where
  "byte_at buf i = (if i < length buf then Some (buf ! i) else None)"

text \<open>\<^verbatim>\<open>arr.slice(a, b)\<close> for \<open>a \<le> b\<close>, and \<^verbatim>\<open>arr.slice(a)\<close>; both clamp to the array.\<close>

definition slice :: "byte list \<Rightarrow> nat \<Rightarrow> nat \<Rightarrow> byte list" where
  "slice buf a b = take (b - a) (drop a buf)"

definition slice_from :: "byte list \<Rightarrow> nat \<Rightarrow> byte list" where
  "slice_from buf a = drop a buf"

text \<open>\<^verbatim>\<open>String.fromCharCode(...bytes)\<close>: one code unit for each byte.\<close>

definition fromCharCode :: "byte list \<Rightarrow> jsstring" where
  "fromCharCode bs = map ucast bs"

subsection \<open>\<^verbatim>\<open>DataView\<close>\<close>

text \<open>
  \<^verbatim>\<open>setUint32(0, v, false)\<close> on a fresh 4-byte buffer: the number is reduced modulo \<open>2^32\<close>
  and written big-endian.  \<^verbatim>\<open>getUint32(pos)\<close> reads four bytes big-endian and raises
  \<^verbatim>\<open>RangeError\<close> when they are not all inside the buffer.
\<close>

definition setUint32 :: "nat \<Rightarrow> byte list" where
  "setUint32 v = [u8 (v div 2 ^ 24 mod 256), u8 (v div 2 ^ 16 mod 256),
                  u8 (v div 2 ^ 8 mod 256), u8 (v mod 256)]"

definition getUint32 :: "byte list \<Rightarrow> nat \<Rightarrow> error + nat" where
  "getUint32 buf pos =
     (if pos + 4 \<le> length buf
      then Inr (unat (buf ! pos) * 2 ^ 24 + unat (buf ! (pos + 1)) * 2 ^ 16
                + unat (buf ! (pos + 2)) * 2 ^ 8 + unat (buf ! (pos + 3)))
      else Inl RangeError)"

subsection \<open>\<^verbatim>\<open>TextEncoder\<close> and \<^verbatim>\<open>TextDecoder\<close>\<close>

text \<open>
  Both are platform classes, used by the codec with their defaults.  They are modelled
  after the WHATWG Encoding Standard.  \<^verbatim>\<open>TextEncoder.encode\<close> first turns the string into
  scalar values (a surrogate that is not part of a pair becomes U+FFFD) and then writes
  each one in UTF-8.
\<close>

definition is_high :: "16 word \<Rightarrow> bool" where
  "is_high c = (0xD800 \<le> unat c \<and> unat c \<le> 0xDBFF)"

definition is_low :: "16 word \<Rightarrow> bool" where
  "is_low c = (0xDC00 \<le> unat c \<and> unat c \<le> 0xDFFF)"

fun scalar_values :: "jsstring \<Rightarrow> nat list" where
  "scalar_values [] = []"
| "scalar_values [c] = (if is_high c \<or> is_low c then [0xFFFD] else [unat c])"
| "scalar_values (c # d # cs) =
     (if is_high c then
        (if is_low d
         then (0x10000 + (unat c - 0xD800) * 0x400 + (unat d - 0xDC00)) # scalar_values cs
         else 0xFFFD # scalar_values (d # cs))
      else if is_low c then 0xFFFD # scalar_values (d # cs)
      else unat c # scalar_values (d # cs))"

definition utf8_encode_cp :: "nat \<Rightarrow> byte list" where
  "utf8_encode_cp cp =
     (if cp < 0x80 then [u8 cp]
      else if cp < 0x800 then [u8 (0xC0 + cp div 64), u8 (0x80 + cp mod 64)]
      else if cp < 0x10000 then
        [u8 (0xE0 + cp div 4096), u8 (0x80 + cp div 64 mod 64), u8 (0x80 + cp mod 64)]
      else
        [u8 (0xF0 + cp div 262144), u8 (0x80 + cp div 4096 mod 64),
         u8 (0x80 + cp div 64 mod 64), u8 (0x80 + cp mod 64)])"

definition TextEncoder_encode :: "jsstring \<Rightarrow> byte list" where
  "TextEncoder_encode s = concat (map utf8_encode_cp (scalar_values s))"

text \<open>
  The UTF-8 decoder of the standard is a state machine over the bytes: the code point
  collected so far, the number of continuation bytes still needed, and the bounds the
  next continuation byte has to meet.  A byte that does not fit yields U+FFFD; when it
  was expected to be a continuation byte it is then read again as a first byte.  Input
  that ends inside a sequence yields one more U+FFFD.
\<close>

function utf8_decode :: "nat \<Rightarrow> nat \<Rightarrow> nat \<Rightarrow> nat \<Rightarrow> byte list \<Rightarrow> nat list" where
  "utf8_decode cp need lo hi [] = (if need \<noteq> 0 then [0xFFFD] else [])"
| "utf8_decode cp need lo hi (b # bs) =
     (if need = 0 then
        (if unat b \<le> 0x7F then unat b # utf8_decode 0 0 0x80 0xBF bs
         else if 0xC2 \<le> unat b \<and> unat b \<le> 0xDF then
           utf8_decode (unat b mod 32) 1 0x80 0xBF bs
         else if 0xE0 \<le> unat b \<and> unat b \<le> 0xEF then
           utf8_decode (unat b mod 16) 2
             (if unat b = 0xE0 then 0xA0 else 0x80) (if unat b = 0xED then 0x9F else 0xBF) bs
         else if 0xF0 \<le> unat b \<and> unat b \<le> 0xF4 then
           utf8_decode (unat b mod 8) 3
             (if unat b = 0xF0 then 0x90 else 0x80) (if unat b = 0xF4 then 0x8F else 0xBF) bs
         else 0xFFFD # utf8_decode 0 0 0x80 0xBF bs)
      else if unat b < lo \<or> hi < unat b then 0xFFFD # utf8_decode 0 0 0x80 0xBF (b # bs)
      else if need = 1 then (cp * 64 + unat b mod 64) # utf8_decode 0 0 0x80 0xBF bs
      else utf8_decode (cp * 64 + unat b mod 64) (need - 1) 0x80 0xBF bs)"
  by pat_completeness auto
termination
  by (relation "measure (\<lambda>(cp, need, lo, hi, bs). 2 * length bs + (if need = 0 then 0 else 1))")
    auto

declare utf8_decode.simps [simp del]

text \<open>The decoder in its initial state.\<close>

abbreviation decode_all :: "byte list \<Rightarrow> nat list" where
  "decode_all bs \<equiv> utf8_decode 0 0 0x80 0xBF bs"

text \<open>A scalar value as UTF-16 code units.\<close>

definition utf16_of_cp :: "nat \<Rightarrow> jsstring" where
  "utf16_of_cp cp =
     (if cp < 0x10000 then [u16 cp]
      else [u16 (0xD800 + (cp - 0x10000) div 0x400), u16 (0xDC00 + (cp - 0x10000) mod 0x400)])"

text \<open>
  \<^verbatim>\<open>new TextDecoder().decode(bytes)\<close>: UTF-8, not fatal, and \<^verbatim>\<open>ignoreBOM\<close> false, so a
  byte order mark U+FEFF at the very start of the decoded text is dropped.
\<close>

definition strip_bom :: "nat list \<Rightarrow> nat list" where
  "strip_bom cps = (case cps of [] \<Rightarrow> [] | c # rest \<Rightarrow> if c = 0xFEFF then rest else cps)"

definition TextDecoder_decode :: "byte list \<Rightarrow> jsstring" where
  "TextDecoder_decode bs = concat (map utf16_of_cp (strip_bom (utf8_decode 0 0 0x80 0xBF bs)))"

section \<open>The checksum\<close>

text \<open>
  The bitwise operators of the source work on 32-bit patterns; a \<open>32 word\<close> is that
  pattern.  (As a JavaScript number the result of \<^verbatim>\<open>^\<close> is the signed reading of the
  pattern; \<^verbatim>\<open>>>>\<close>, the table index and \<^verbatim>\<open>setUint32\<close> only ever use the pattern.)
\<close>

definition crc_step :: "u32 \<Rightarrow> u32" where
  "crc_step c = (if c AND 1 \<noteq> 0 then 0xedb88320 XOR drop_bit 1 c else drop_bit 1 c)"

definition crc_entry :: "nat \<Rightarrow> u32" where
  "crc_entry n = (crc_step ^^ 8) (of_nat n)"

definition crcTable :: "u32 list" where
  "crcTable = map crc_entry [0..<256]"

definition crc_update :: "u32 \<Rightarrow> byte \<Rightarrow> u32" where
  "crc_update crc b = (crcTable ! unat ((crc XOR ucast b) AND 0xff)) XOR drop_bit 8 crc"

definition crc32 :: "byte list \<Rightarrow> u32" where
  "crc32 buf = foldl crc_update 0xffffffff buf XOR 0xffffffff"

section \<open>Writing the metadata chunk\<close>

text \<open>
  The first part of \<^verbatim>\<open>writePngMetadata\<close> builds the chunk, whatever the image is:
  length, type, data and checksum, laid out in a fresh array of \<open>4 + 4 + len + 4\<close> bytes.
\<close>

definition tEXt_chunk :: "jsstring \<Rightarrow> jsstring \<Rightarrow> byte list" where
  "tEXt_chunk key val =
     (let keyBytes = TextEncoder_encode key;
          textBytes = TextEncoder_encode val;
          chunkData = keyBytes @ [0] @ textBytes;
          len = length chunkData;
          lenBuf = setUint32 len;
          typeBuf = TextEncoder_encode (lit ''tEXt'');
          crcCheck = typeBuf @ chunkData;
          crcVal = crc32 crcCheck;
          crcBuf = setUint32 (unat crcVal)
      in lenBuf @ typeBuf @ chunkData @ crcBuf)"

text \<open>
  The scan for \<^verbatim>\<open>IHDR\<close>.  The chunk length is read through
  \<^verbatim>\<open>new DataView(originalPng.buffer)\<close>, that is from the buffer and at an offset counted from
  the start of the buffer; \<^verbatim>\<open>getUint32\<close> raises when fewer than four bytes of the buffer
  are left there.  The chunk type is read from the array itself.  At the insertion,
  \<^verbatim>\<open>newPng.set(chunk, insertionPoint)\<close> raises when the chunk would not fit, which is when
  the insertion point lies beyond the elements of the input.  The function returns either
  the array it was given or the fresh array \<^verbatim>\<open>newPng\<close>.
\<close>

function write_loop :: "uint8array \<Rightarrow> byte list \<Rightarrow> nat \<Rightarrow> error + uint8array" where
  "write_loop originalPng chunk pos =
     (if pos < length (elements originalPng) then
        (case getUint32 (buffer_of originalPng) pos of
           Inl e \<Rightarrow> Inl e
         | Inr chunkLen \<Rightarrow>
            (let type = fromCharCode (slice (elements originalPng) (pos + 4) (pos + 8)) in
             if type = lit ''IHDR'' then
               (let insertionPoint = pos + 8 + chunkLen + 4 in
                if length chunk + insertionPoint > length (elements originalPng) + length chunk
                then Inl RangeError
                else Inr (whole (slice (elements originalPng) 0 insertionPoint @ chunk
                                 @ slice_from (elements originalPng) insertionPoint)))
             else write_loop originalPng chunk (pos + 8 + chunkLen + 4)))
      else Inr originalPng)"
  by pat_completeness auto
termination
  by (relation "measure (\<lambda>(png, chunk, pos). length (elements png) - pos)") auto

declare write_loop.simps [simp del]

definition writePngMetadata :: "uint8array \<Rightarrow> jsstring \<Rightarrow> jsstring \<Rightarrow> error + uint8array" where
  "writePngMetadata originalPng key val =
     (let chunk = tEXt_chunk key val in
      if byte_at (elements originalPng) 0 \<noteq> Some 137
         \<or> byte_at (elements originalPng) 1 \<noteq> Some 80
         \<or> byte_at (elements originalPng) 2 \<noteq> Some 78
         \<or> byte_at (elements originalPng) 3 \<noteq> Some 71
      then Inr originalPng
      else write_loop originalPng chunk 8)"

section \<open>Reading the metadata chunk\<close>

text \<open>The inner loop that looks for the first zero byte; \<open>None\<close> stands for \<open>-1\<close>.\<close>

fun null_scan :: "byte list \<Rightarrow> nat \<Rightarrow> nat option" where
  "null_scan [] i = None"
| "null_scan (b # bs) i = (if b = 0 then Some i else null_scan bs (Suc i))"

definition nullIndex :: "byte list \<Rightarrow> nat option" where
  "nullIndex chunkData = null_scan chunkData 0"

text \<open>What a \<^verbatim>\<open>tEXt\<close> chunk returns, if anything.\<close>

definition tEXt_payload :: "byte list \<Rightarrow> jsstring option" where
  "tEXt_payload chunkData =
     (case nullIndex chunkData of
        None \<Rightarrow> None
      | Some n \<Rightarrow>
         (let keyword = TextDecoder_decode (slice chunkData 0 n) in
          if keyword = lit ''parameters'' then Some (TextDecoder_decode (slice_from chunkData (n + 1)))
          else if keyword = lit ''BananaProData'' then
            Some (TextDecoder_decode (slice_from chunkData (n + 1)))
          else None))"

function read_loop :: "byte list \<Rightarrow> nat \<Rightarrow> error + jsstring option" where
  "read_loop buffer offset =
     (if offset < length buffer then
        (if offset + 8 > length buffer then Inr None
         else case getUint32 buffer offset of
           Inl e \<Rightarrow> Inl e
         | Inr len \<Rightarrow>
            (if offset + 8 + len + 4 > length buffer then Inr None
             else
               (let type = fromCharCode (slice buffer (offset + 4) (offset + 8)) in
                case (if type = lit ''tEXt''
                      then tEXt_payload (slice buffer (offset + 8) (offset + 8 + len))
                      else None) of
                  Some text \<Rightarrow> Inr (Some text)
                | None \<Rightarrow>
                   (if type = lit ''IEND'' then Inr None
                    else read_loop buffer (offset + (12 + len))))))
      else Inr None)"
  by pat_completeness auto
termination
  by (relation "measure (\<lambda>(buffer, offset). length buffer - offset)") auto

declare read_loop.simps [simp del]

definition extractPngMetadata :: "byte list \<Rightarrow> error + jsstring option" where
  "extractPngMetadata buffer =
     (case getUint32 buffer 0 of
        Inl e \<Rightarrow> Inl e
      | Inr magic \<Rightarrow> if magic \<noteq> 0x89504E47 then Inr None else read_loop buffer 8)"

section \<open>Chunks and streams\<close>

text \<open>
  The layout the codec works on, as the source states it:
  \<^verbatim>\<open>Length (4) | Type (4) | Data (Length) | CRC (4)\<close>, after a signature of 8 bytes.
  These definitions describe the inputs the properties below are about; the codec itself
  only ever sees bytes.  \<open>at_start bs aft\<close> is an array with elements \<open>bs\<close> that starts at
  byte offset 0 of its buffer, which may go on with \<open>aft\<close>.
\<close>

record chunk =
  ctype :: "byte list"
  cdata :: "byte list"
  ccrc :: u32

definition at_start :: "byte list \<Rightarrow> byte list \<Rightarrow> uint8array" where
  "at_start bs aft = Uint8Array [] bs aft"

definition ascii :: "string \<Rightarrow> byte list" where
  "ascii s = map (\<lambda>c. u8 (of_char c)) s"

definition serialize :: "chunk \<Rightarrow> byte list" where
  "serialize c = setUint32 (length (cdata c)) @ ctype c @ cdata c @ setUint32 (unat (ccrc c))"

definition wf_chunk :: "chunk \<Rightarrow> bool" where
  "wf_chunk c = (length (ctype c) = 4 \<and> length (cdata c) < 2 ^ 32)"

definition chunks_bytes :: "chunk list \<Rightarrow> byte list" where
  "chunks_bytes cs = concat (map serialize cs)"

definition png_signature :: "byte list" where
  "png_signature = [137, 80, 78, 71, 13, 10, 26, 10]"

definition png_bytes :: "chunk list \<Rightarrow> byte list" where
  "png_bytes cs = png_signature @ chunks_bytes cs"

text \<open>A chunk of the given type and data, with the checksum the format asks for.\<close>

definition mk_chunk :: "string \<Rightarrow> byte list \<Rightarrow> chunk" where
  "mk_chunk t d = \<lparr>ctype = ascii t, cdata = d, ccrc = crc32 (ascii t @ d)\<rparr>"

text \<open>
  The keyword of a text chunk, as bytes: its data up to the first zero byte, when there
  is one.  \<open>named d s\<close> says that the keyword of the data \<open>d\<close> is exactly the ASCII bytes of
  \<open>s\<close>; \<open>named_after_bom d s\<close> that it is those bytes after the three bytes of a UTF-8 byte
  order mark.  A chunk is \<open>recognized\<close> when it is a text chunk whose keyword is one of the
  two names in either of these two ways.
\<close>

definition keyword_of :: "byte list \<Rightarrow> byte list option" where
  "keyword_of d = (if 0 \<in> set d then Some (takeWhile (\<lambda>b. b \<noteq> 0) d) else None)"

definition bom :: "byte list" where
  "bom = [0xEF, 0xBB, 0xBF]"

definition named :: "byte list \<Rightarrow> string \<Rightarrow> bool" where
  "named d s = (keyword_of d = Some (ascii s))"

definition named_after_bom :: "byte list \<Rightarrow> string \<Rightarrow> bool" where
  "named_after_bom d s = (keyword_of d = Some (bom @ ascii s))"

definition recognized :: "chunk \<Rightarrow> bool" where
  "recognized c =
     (ctype c = ascii ''tEXt'' \<and>
      (named (cdata c) ''parameters'' \<or> named (cdata c) ''BananaProData''
       \<or> named_after_bom (cdata c) ''parameters''
       \<or> named_after_bom (cdata c) ''BananaProData''))"

text \<open>The chunk that \<^verbatim>\<open>writePngMetadata\<close> adds, as a chunk.\<close>

definition new_chunk :: "jsstring \<Rightarrow> jsstring \<Rightarrow> chunk" where
  "new_chunk key val = mk_chunk ''tEXt'' (TextEncoder_encode key @ [0] @ TextEncoder_encode val)"

text \<open>
  Strings: a scalar value is a code point that is not a surrogate; a string is well formed
  (\<^verbatim>\<open>String.prototype.isWellFormed\<close>) when every surrogate in it is part of a pair.  These
  are the strings that have a UTF-8 encoding.
\<close>

definition is_scalar :: "nat \<Rightarrow> bool" where
  "is_scalar cp = (cp < 0x110000 \<and> \<not> (0xD800 \<le> cp \<and> cp \<le> 0xDFFF))"

fun well_formed :: "jsstring \<Rightarrow> bool" where
  "well_formed [] = True"
| "well_formed [c] = (\<not> is_high c \<and> \<not> is_low c)"
| "well_formed (c # d # cs) =
     (if is_high c then is_low d \<and> well_formed cs
      else \<not> is_low c \<and> well_formed (d # cs))"

definition drop_bom :: "jsstring \<Rightarrow> jsstring" where
  "drop_bom s = (case s of [] \<Rightarrow> [] | c # rest \<Rightarrow> if c = 0xFEFF then rest else s)"

text \<open>
  Decoding the bytes of the array that encoding returned; an exception of either step is
  the result.
\<close>

definition decode_encoded :: "uint8array \<Rightarrow> jsstring \<Rightarrow> jsstring \<Rightarrow> error + jsstring option" where
  "decode_encoded png key val =
     (case writePngMetadata png key val of
        Inl e \<Rightarrow> Inl e
      | Inr out \<Rightarrow> extractPngMetadata (elements out))"

section \<open>The offsets the reader visits\<close>

text \<open>
  The loop of \<^verbatim>\<open>extractPngMetadata\<close> once more, this time recording each offset at which
  its condition is evaluated, in order.  \<open>next_offset\<close> is one round of the loop: the
  offset of the next round, or \<open>None\<close> when the loop is left.
\<close>

function visited :: "byte list \<Rightarrow> nat \<Rightarrow> nat list" where
  "visited buffer offset =
     offset #
     (if offset < length buffer then
        (if offset + 8 > length buffer then []
         else case getUint32 buffer offset of
           Inl e \<Rightarrow> []
         | Inr len \<Rightarrow>
            (if offset + 8 + len + 4 > length buffer then []
             else
               (let type = fromCharCode (slice buffer (offset + 4) (offset + 8)) in
                case (if type = lit ''tEXt''
                      then tEXt_payload (slice buffer (offset + 8) (offset + 8 + len))
                      else None) of
                  Some text \<Rightarrow> []
                | None \<Rightarrow>
                   (if type = lit ''IEND'' then []
                    else visited buffer (offset + (12 + len))))))
      else [])"
  by pat_completeness auto
termination
  by (relation "measure (\<lambda>(buffer, offset). length buffer - offset)") auto

declare visited.simps [simp del]

definition next_offset :: "byte list \<Rightarrow> nat \<Rightarrow> nat option" where
  "next_offset buffer offset =
     (if offset < length buffer then
        (if offset + 8 > length buffer then None
         else case getUint32 buffer offset of
           Inl e \<Rightarrow> None
         | Inr len \<Rightarrow>
            (if offset + 8 + len + 4 > length buffer then None
             else
               (let type = fromCharCode (slice buffer (offset + 4) (offset + 8)) in
                case (if type = lit ''tEXt''
                      then tEXt_payload (slice buffer (offset + 8) (offset + 8 + len))
                      else None) of
                  Some text \<Rightarrow> None
                | None \<Rightarrow> (if type = lit ''IEND'' then None else Some (offset + (12 + len))))))
      else None)"

text \<open>The offsets at which the chunks of a stream start, and the offset after the last.\<close>

fun chunk_offsets :: "nat \<Rightarrow> chunk list \<Rightarrow> nat list" where
  "chunk_offsets off [] = [off]"
| "chunk_offsets off (c # cs) = off # chunk_offsets (off + 8 + length (cdata c) + 4) cs"

section \<open>A minimal image\<close>

text \<open>Signature, \<^verbatim>\<open>IHDR\<close> with 13 bytes of data and \<^verbatim>\<open>IEND\<close> without data.\<close>

definition ihdr_data :: "byte list" where
  "ihdr_data = [0, 0, 0, 1, 0, 0, 0, 1, 8, 2, 0, 0, 0]"

definition P0 :: "byte list" where
  "P0 = png_bytes [mk_chunk ''IHDR'' ihdr_data, mk_chunk ''IEND'' []]"

definition V0 :: jsstring where
  "V0 = lit ''{\"mega\":\"a castle\",\"lighting\":\"dawn\"}''"

text \<open>The bytes expected from writing \<open>V0\<close> under the key \<^verbatim>\<open>BananaProData\<close> into \<open>P0\<close>.\<close>

definition E0 :: "byte list" where
  "E0 = [137, 80, 78, 71, 13, 10, 26, 10,
         0, 0, 0, 13, 73, 72, 68, 82, 0, 0, 0, 1, 0, 0, 0, 1, 8, 2, 0, 0, 0, 144, 119, 83, 222,
         0, 0, 0, 51, 116, 69, 88, 116,
         66, 97, 110, 97, 110, 97, 80, 114, 111, 68, 97, 116, 97, 0,
         123, 34, 109, 101, 103, 97, 34, 58, 34, 97, 32, 99, 97, 115, 116, 108, 101, 34, 44,
         34, 108, 105, 103, 104, 116, 105, 110, 103, 34, 58, 34, 100, 97, 119, 110, 34, 125,
         179, 136, 9, 181,
         0, 0, 0, 0, 73, 69, 78, 68, 174, 66, 96, 130]"

section \<open>Bytes, numbers and literals\<close>

lemma unat_u8: "n < 256 \<Longrightarrow> unat (u8 n) = n"
  by (simp add: u8_def unat_of_nat)

lemma unat_u16: "n < 65536 \<Longrightarrow> unat (u16 n) = n"
  by (simp add: u16_def unat_of_nat)

lemma length_setUint32 [simp]: "length (setUint32 v) = 4"
  by (simp add: setUint32_def)

lemma be32_value:
  assumes "(n::nat) < 2 ^ 32"
  shows "n div 2 ^ 24 mod 256 * 2 ^ 24 + n div 2 ^ 16 mod 256 * 2 ^ 16
         + n div 2 ^ 8 mod 256 * 2 ^ 8 + n mod 256 = n"
proof -
  define a where "a = n div 256 div 256 div 256"
  define b where "b = n div 256 div 256 mod 256"
  define c where "c = n div 256 mod 256"
  define d where "d = n mod 256"
  have d2: "n div 2 ^ 16 = n div 256 div 256" by (simp add: div_mult2_eq)
  have d3: "n div 2 ^ 24 = n div 256 div 256 div 256" by (simp add: div_mult2_eq)
  have 1: "n div 2 ^ 8 mod 256 = c" by (simp add: c_def)
  have 2: "n div 2 ^ 16 mod 256 = b" unfolding d2 b_def ..
  have 4: "a < 256" using assms unfolding a_def d3 [symmetric] by simp
  have 3: "n div 2 ^ 24 mod 256 = a" unfolding d3 a_def [symmetric] using 4 by simp
  have "n = ((a * 256 + b) * 256 + c) * 256 + d"
    unfolding a_def b_def c_def d_def by simp
  then have n: "n = a * 2 ^ 24 + b * 2 ^ 16 + c * 2 ^ 8 + d" by simp
  show ?thesis unfolding 1 2 3 d_def [symmetric] using n by simp
qed

lemma getUint32_setUint32:
  assumes "n < 2 ^ 32"
  shows "getUint32 (pre @ setUint32 n @ post) (length pre) = Inr n"
proof -
  have "getUint32 (pre @ setUint32 n @ post) (length pre)
        = Inr (n div 2 ^ 24 mod 256 * 2 ^ 24 + n div 2 ^ 16 mod 256 * 2 ^ 16
               + n div 2 ^ 8 mod 256 * 2 ^ 8 + n mod 256)"
    by (simp add: getUint32_def setUint32_def nth_append unat_u8)
  then show ?thesis by (simp only: be32_value [OF assms])
qed

lemma slice_append:
  "slice (pre @ xs @ post) (length pre) (length pre + length xs) = xs"
  by (simp add: slice_def)

lemma unat_ucast_byte: "unat (ucast (b::byte) :: 16 word) = unat b"
proof -
  have "unat b < 2 ^ 16" using unsigned_less [of b, where ?'a = nat] by simp
  then show ?thesis by (simp add: unsigned_ucast_eq take_bit_nat_eq_self)
qed

lemma of_char_less_256: "(of_char c :: nat) < 256"
  by (cases c) (simp add: )

lemma unat_ascii:
  "unat (u8 (of_char c)) = of_char c" "unat (u16 (of_char c)) = of_char c"
proof -
  have "(of_char c :: nat) < 256" by (rule of_char_less_256)
  then show "unat (u8 (of_char c)) = of_char c" by (rule unat_u8)
  have "(of_char c :: nat) < 65536" using of_char_less_256 [of c] by linarith
  then show "unat (u16 (of_char c)) = of_char c" by (rule unat_u16)
qed

lemma fromCharCode_eq_lit: "fromCharCode bs = lit s \<longleftrightarrow> bs = ascii s"
proof (induction bs arbitrary: s)
  case Nil
  then show ?case by (auto simp: fromCharCode_def lit_def ascii_def)
next
  case (Cons b bs)
  show ?case
  proof (cases s)
    case Nil
    then show ?thesis by (simp add: fromCharCode_def lit_def ascii_def)
  next
    case (Cons c cs)
    have "(ucast b :: 16 word) = u16 (of_char c) \<longleftrightarrow> b = u8 (of_char c)"
      by (simp add: word_unat_eq_iff unat_ascii unat_ucast_byte)
    with Cons.IH [of cs] Cons show ?thesis
      by (simp add: fromCharCode_def lit_def ascii_def)
  qed
qed

section \<open>Encoding and decoding text\<close>

lemma split3: "(cp::nat) = (cp div 4096 * 64 + cp div 64 mod 64) * 64 + cp mod 64"
proof -
  have "cp div 4096 = cp div 64 div 64" by (simp add: div_mult2_eq)
  then show ?thesis by simp
qed

lemma split4:
  "(cp::nat) = ((cp div 262144 * 64 + cp div 4096 mod 64) * 64 + cp div 64 mod 64) * 64 + cp mod 64"
proof -
  have 1: "cp div 4096 = cp div 64 div 64" by (simp add: div_mult2_eq)
  have 2: "cp div 262144 = cp div 64 div 64 div 64" by (simp add: div_mult2_eq)
  show ?thesis unfolding 1 2 by simp
qed

lemma add_mod_small: "(a::nat) < m \<Longrightarrow> (k * m + a) mod m = a"
  by simp

lemma dec1:
  assumes "cp < 0x80"
  shows "utf8_decode 0 0 0x80 0xBF (utf8_encode_cp cp @ bs) = cp # utf8_decode 0 0 0x80 0xBF bs"
  using assms by (simp add: utf8_encode_cp_def utf8_decode.simps unat_u8)

lemma dec2:
  assumes "0x80 \<le> cp" "cp < 0x800"
  shows "utf8_decode 0 0 0x80 0xBF (utf8_encode_cp cp @ bs) = cp # utf8_decode 0 0 0x80 0xBF bs"
proof -
  define a where "a = cp div 64"
  define b where "b = cp mod 64"
  have cp: "cp = a * 64 + b" by (simp add: a_def b_def)
  have a: "2 \<le> a" "a < 32" using assms by (auto simp: a_def)
  have b: "b < 64" by (simp add: b_def)
  have u0: "unat (u8 (0xC0 + a)) = 0xC0 + a" using a by (simp add: unat_u8)
  have u1: "unat (u8 (0x80 + b)) = 0x80 + b" using b by (simp add: unat_u8)
  have m0: "(0xC0 + a) mod 32 = a" using a add_mod_small [of a 32 6] by simp
  have m1: "(0x80 + b) mod 64 = b" using b add_mod_small [of b 64 2] by simp
  have enc: "utf8_encode_cp cp = [u8 (0xC0 + a), u8 (0x80 + b)]"
    using assms by (simp add: utf8_encode_cp_def a_def b_def)
  show ?thesis
    unfolding enc using a b
    by (simp add: utf8_decode.simps u0 u1 m0 m1 cp)
qed

lemma dec3:
  assumes "0x800 \<le> cp" "cp < 0x10000" "\<not> (0xD800 \<le> cp \<and> cp \<le> 0xDFFF)"
  shows "utf8_decode 0 0 0x80 0xBF (utf8_encode_cp cp @ bs) = cp # utf8_decode 0 0 0x80 0xBF bs"
proof -
  define a where "a = cp div 4096"
  define b where "b = cp div 64 mod 64"
  define c where "c = cp mod 64"
  have cp: "cp = (a * 64 + b) * 64 + c" unfolding a_def b_def c_def by (rule split3)
  have a: "a < 16" using assms by (auto simp: a_def)
  have b: "b < 64" by (simp add: b_def)
  have c: "c < 64" by (simp add: c_def)
  have lo: "a = 0 \<Longrightarrow> 32 \<le> b" using assms(1) cp c by simp
  have hi: "a = 13 \<Longrightarrow> b < 32" using assms(3) cp b c by simp
  have u0: "unat (u8 (0xE0 + a)) = 0xE0 + a" using a by (simp add: unat_u8)
  have u1: "unat (u8 (0x80 + b)) = 0x80 + b" using b by (simp add: unat_u8)
  have u2: "unat (u8 (0x80 + c)) = 0x80 + c" using c by (simp add: unat_u8)
  have m0: "(0xE0 + a) mod 16 = a" using a add_mod_small [of a 16 14] by simp
  have m1: "(0x80 + b) mod 64 = b" using b add_mod_small [of b 64 2] by simp
  have m2: "(0x80 + c) mod 64 = c" using c add_mod_small [of c 64 2] by simp
  have enc: "utf8_encode_cp cp = [u8 (0xE0 + a), u8 (0x80 + b), u8 (0x80 + c)]"
    using assms by (simp add: utf8_encode_cp_def a_def b_def c_def)
  show ?thesis
    unfolding enc using a b c lo hi
    by (auto simp add: utf8_decode.simps u0 u1 u2 m0 m1 m2 cp)
qed

lemma dec4:
  assumes "0x10000 \<le> cp" "cp < 0x110000"
  shows "utf8_decode 0 0 0x80 0xBF (utf8_encode_cp cp @ bs) = cp # utf8_decode 0 0 0x80 0xBF bs"
proof -
  define a where "a = cp div 262144"
  define b where "b = cp div 4096 mod 64"
  define c where "c = cp div 64 mod 64"
  define d where "d = cp mod 64"
  have cp: "cp = ((a * 64 + b) * 64 + c) * 64 + d" unfolding a_def b_def c_def d_def by (rule split4)
  have a: "a < 5" using assms by (auto simp: a_def)
  have b: "b < 64" by (simp add: b_def)
  have c: "c < 64" by (simp add: c_def)
  have d: "d < 64" by (simp add: d_def)
  have lo: "a = 0 \<Longrightarrow> 16 \<le> b" using assms(1) cp c d by simp
  have hi: "a = 4 \<Longrightarrow> b < 16" using assms(2) cp c d by simp
  have u0: "unat (u8 (0xF0 + a)) = 0xF0 + a" using a by (simp add: unat_u8)
  have u1: "unat (u8 (0x80 + b)) = 0x80 + b" using b by (simp add: unat_u8)
  have u2: "unat (u8 (0x80 + c)) = 0x80 + c" using c by (simp add: unat_u8)
  have u3: "unat (u8 (0x80 + d)) = 0x80 + d" using d by (simp add: unat_u8)
  have m0: "(0xF0 + a) mod 8 = a" using a add_mod_small [of a 8 30] by simp
  have m1: "(0x80 + b) mod 64 = b" using b add_mod_small [of b 64 2] by simp
  have m2: "(0x80 + c) mod 64 = c" using c add_mod_small [of c 64 2] by simp
  have m3: "(0x80 + d) mod 64 = d" using d add_mod_small [of d 64 2] by simp
  have enc: "utf8_encode_cp cp = [u8 (0xF0 + a), u8 (0x80 + b), u8 (0x80 + c), u8 (0x80 + d)]"
    using assms by (simp add: utf8_encode_cp_def a_def b_def c_def d_def)
  show ?thesis
    unfolding enc using a b c d lo hi
    by (auto simp add: utf8_decode.simps u0 u1 u2 u3 m0 m1 m2 m3 cp)
qed

lemma utf8_decode_encode_cp:
  "is_scalar cp \<Longrightarrow>
   utf8_decode 0 0 0x80 0xBF (utf8_encode_cp cp @ bs) = cp # utf8_decode 0 0 0x80 0xBF bs"
  using dec1 [of cp bs] dec2 [of cp bs] dec3 [of cp bs] dec4 [of cp bs]
  unfolding is_scalar_def by linarith

lemma utf8_decode_encode:
  "list_all is_scalar cps \<Longrightarrow> utf8_decode 0 0 0x80 0xBF (concat (map utf8_encode_cp cps)) = cps"
  by (induction cps) (simp_all add: utf8_decode.simps(1) utf8_decode_encode_cp)

lemma u16_unat: "u16 (unat c) = c"
  by (simp add: u16_def)

lemma unat_code_unit: "unat (c :: 16 word) < 65536"
  using unsigned_less [of c, where ?'a = nat] by simp

lemma pair_div: "(l::nat) < 1024 \<Longrightarrow> (h * 1024 + l) div 1024 = h"
  by simp

lemma pair_mod: "(l::nat) < 1024 \<Longrightarrow> (h * 1024 + l) mod 1024 = l"
  by simp

lemma utf16_pair:
  assumes "is_high c" "is_low d"
  shows "utf16_of_cp (0x10000 + (unat c - 0xD800) * 0x400 + (unat d - 0xDC00)) = [c, d]"
    and "is_scalar (0x10000 + (unat c - 0xD800) * 0x400 + (unat d - 0xDC00))"
    and "0x10000 + (unat c - 0xD800) * 0x400 + (unat d - 0xDC00) \<noteq> 0xFEFF"
proof -
  define h where "h = unat c - 0xD800"
  define l where "l = unat d - 0xDC00"
  have h: "h < 1024" "0xD800 + h = unat c" using assms(1) by (auto simp: h_def is_high_def)
  have l: "l < 1024" "0xDC00 + l = unat d" using assms(2) by (auto simp: l_def is_low_def)
  have "utf16_of_cp (0x10000 + h * 0x400 + l) = [u16 (0xD800 + h), u16 (0xDC00 + l)]"
    using l(1) by (simp add: utf16_of_cp_def pair_div pair_mod)
  then show "utf16_of_cp (0x10000 + (unat c - 0xD800) * 0x400 + (unat d - 0xDC00)) = [c, d]"
    unfolding h l u16_unat by (simp add: h_def l_def)
  show "is_scalar (0x10000 + (unat c - 0xD800) * 0x400 + (unat d - 0xDC00))"
    using h(1) l(1) by (simp add: is_scalar_def h_def l_def)
  show "0x10000 + (unat c - 0xD800) * 0x400 + (unat d - 0xDC00) \<noteq> 0xFEFF"
    by simp
qed

lemma utf16_single:
  assumes "\<not> is_high c" "\<not> is_low c"
  shows "utf16_of_cp (unat c) = [c]" and "is_scalar (unat c)"
  using assms unat_code_unit [of c]
  by (auto simp: utf16_of_cp_def u16_unat is_scalar_def is_high_def is_low_def)

lemma well_formed_scalar_values:
  "well_formed s \<Longrightarrow>
   list_all is_scalar (scalar_values s) \<and> concat (map utf16_of_cp (scalar_values s)) = s"
  by (induction s rule: scalar_values.induct)
     (auto simp: utf16_pair utf16_single split: if_splits)

lemma unat_FEFF: "unat (c :: 16 word) = 0xFEFF \<longleftrightarrow> c = 0xFEFF"
  by (auto simp: word_unat_eq_iff)

lemma strip_bom_scalar_values:
  assumes "well_formed s"
  shows "strip_bom (scalar_values s) = scalar_values (drop_bom s)" and "well_formed (drop_bom s)"
proof -
  show "strip_bom (scalar_values s) = scalar_values (drop_bom s)"
  proof (cases s rule: scalar_values.cases)
    case 1
    then show ?thesis by (simp add: strip_bom_def drop_bom_def)
  next
    case (2 c)
    then show ?thesis
      using assms by (auto simp: strip_bom_def drop_bom_def unat_FEFF is_high_def is_low_def)
  next
    case (3 c d cs)
    then show ?thesis
      using assms utf16_pair(3) [of c d]
      by (auto simp: strip_bom_def drop_bom_def unat_FEFF is_high_def is_low_def)
  qed
  show "well_formed (drop_bom s)"
  proof (cases s rule: scalar_values.cases)
    case 1
    then show ?thesis by (simp add: drop_bom_def)
  next
    case (2 c)
    then show ?thesis using assms by (simp add: drop_bom_def)
  next
    case (3 c d cs)
    then show ?thesis
      using assms by (auto simp: drop_bom_def is_high_def is_low_def)
  qed
qed

lemma text_roundtrip:
  assumes "well_formed s"
  shows "TextDecoder_decode (TextEncoder_encode s) = drop_bom s"
proof -
  have "utf8_decode 0 0 0x80 0xBF (TextEncoder_encode s) = scalar_values s"
    using well_formed_scalar_values [OF assms]
    by (simp add: TextEncoder_encode_def utf8_decode_encode)
  then have "TextDecoder_decode (TextEncoder_encode s)
             = concat (map utf16_of_cp (scalar_values (drop_bom s)))"
    by (simp add: TextDecoder_decode_def strip_bom_scalar_values(1) [OF assms])
  then show ?thesis
    using well_formed_scalar_values [OF strip_bom_scalar_values(2) [OF assms]] by simp
qed

lemma null_scan_append:
  "0 \<notin> set xs \<Longrightarrow> null_scan (xs @ 0 # ys) i = Some (i + length xs)"
  by (induction xs arbitrary: i) auto

lemma null_scan_none: "0 \<notin> set xs \<Longrightarrow> null_scan xs i = None"
  by (induction xs arbitrary: i) auto

lemma nullIndex_append: "0 \<notin> set xs \<Longrightarrow> nullIndex (xs @ 0 # ys) = Some (length xs)"
  by (simp add: nullIndex_def null_scan_append)

lemma nullIndex_none: "0 \<notin> set xs \<Longrightarrow> nullIndex xs = None"
  by (simp add: nullIndex_def null_scan_none)

lemma small_not_special:
  assumes "(n::nat) < 256"
  shows "\<not> (0xD800 \<le> n \<and> n \<le> 0xDBFF)" "\<not> (0xDC00 \<le> n \<and> n \<le> 0xDFFF)" "n \<noteq> 0xFEFF"
  using assms by simp_all

lemma lit_not_surrogate: "\<not> is_high (u16 (of_char c))" "\<not> is_low (u16 (of_char c))"
  unfolding is_high_def is_low_def unat_ascii
  by (rule small_not_special [OF of_char_less_256])+

lemma well_formed_lit: "well_formed (lit s)"
  by (induction s rule: induct_list012) (simp_all add: lit_def lit_not_surrogate)

lemma drop_bom_lit: "drop_bom (lit s) = lit s"
proof (cases s)
  case Nil
  then show ?thesis by (simp add: drop_bom_def lit_def)
next
  case (Cons c cs)
  have "unat (u16 (of_char c)) \<noteq> 0xFEFF"
    unfolding unat_ascii by (rule small_not_special [OF of_char_less_256])
  then have "u16 (of_char c) \<noteq> 0xFEFF" by (simp add: unat_FEFF)
  with Cons show ?thesis by (simp add: drop_bom_def lit_def)
qed

lemma decode_encode_lit: "TextDecoder_decode (TextEncoder_encode (lit s)) = lit s"
  by (simp add: text_roundtrip well_formed_lit drop_bom_lit)

lemma scalar_values_lit: "scalar_values (lit s) = map of_char s"
  by (induction s rule: induct_list012) (simp_all add: lit_def lit_not_surrogate unat_ascii)

lemma encode_lit:
  "\<forall>c\<in>set s. (of_char c :: nat) < 128 \<Longrightarrow> TextEncoder_encode (lit s) = ascii s"
  by (induction s) (simp_all add: TextEncoder_encode_def scalar_values_lit utf8_encode_cp_def ascii_def)

lemma ascii_tEXt: "TextEncoder_encode (lit ''tEXt'') = ascii ''tEXt''"
  by (rule encode_lit) simp

lemma key_bytes:
  "TextEncoder_encode (lit ''parameters'') = ascii ''parameters''"
  "TextEncoder_encode (lit ''BananaProData'') = ascii ''BananaProData''"
  by (rule encode_lit, simp)+

lemma key_no_null:
  "0 \<notin> set (ascii ''parameters'')" "0 \<notin> set (ascii ''BananaProData'')"
  by (simp_all add: ascii_def u8_def)

lemma tEXt_payload_key:
  assumes "key = lit ''BananaProData'' \<or> key = lit ''parameters''"
  shows "tEXt_payload (TextEncoder_encode key @ [0] @ TextEncoder_encode val)
         = Some (TextDecoder_decode (TextEncoder_encode val))"
proof -
  have nul: "0 \<notin> set (TextEncoder_encode key)"
    using assms key_no_null by (auto simp: key_bytes)
  have kw: "TextDecoder_decode (TextEncoder_encode key) = key"
    using assms by (auto simp: decode_encode_lit)
  show ?thesis
    using assms kw
    by (auto simp: tEXt_payload_def nullIndex_append [OF nul] slice_def slice_from_def)
qed

section \<open>What decodes to a name\<close>

text \<open>
  The decoder read backwards: which bytes can give a text of ASCII characters only.
\<close>

lemma unat_byte_less: "unat (b :: byte) < 256"
  using unsigned_less [of b, where ?'a = nat] by simp

lemma decode_all_ascii: "unat b \<le> 0x7F \<Longrightarrow> decode_all (b # bs) = unat b # decode_all bs"
  by (simp add: utf8_decode.simps)

lemma cont_mod: "128 \<le> (n::nat) \<Longrightarrow> n \<le> 191 \<Longrightarrow> n mod 64 = n - 128"
  by (simp add: mod_if)

text \<open>One continuation byte to go.\<close>

lemma decode_last:
  assumes "lo \<le> 191" "128 \<le> lo"
  shows "\<exists>c suf. utf8_decode cp 1 lo hi bs = c # decode_all suf \<and> length suf \<le> length bs
           \<and> (c = 0xFFFD \<or> (\<exists>b. bs = b # suf \<and> lo \<le> unat b \<and> unat b \<le> hi
                                  \<and> c = cp * 64 + unat b mod 64))"
proof (cases bs)
  case Nil
  then have "utf8_decode cp 1 lo hi bs = 0xFFFD # decode_all []" by (simp add: utf8_decode.simps)
  then show ?thesis by (metis le_refl list.size(3) Nil)
next
  case (Cons b bs')
  show ?thesis
  proof (cases "unat b < lo \<or> hi < unat b")
    case True
    with Cons have "utf8_decode cp 1 lo hi bs = 0xFFFD # decode_all bs" by (simp add: utf8_decode.simps)
    then show ?thesis by blast
  next
    case False
    with Cons have "utf8_decode cp 1 lo hi bs = (cp * 64 + unat b mod 64) # decode_all bs'"
      by (simp add: utf8_decode.simps)
    with Cons False show ?thesis by auto
  qed
qed


lemma decode_2:
  assumes "128 \<le> lo" "lo \<le> 191"
  shows "\<exists>c suf. utf8_decode cp 2 lo hi bs = c # decode_all suf \<and> length suf \<le> length bs
           \<and> (c = 0xFFFD \<or> (\<exists>b1 b2. bs = b1 # b2 # suf \<and> lo \<le> unat b1 \<and> unat b1 \<le> hi
                    \<and> 128 \<le> unat b2 \<and> unat b2 \<le> 191
                    \<and> c = (cp * 64 + unat b1 mod 64) * 64 + unat b2 mod 64))"
proof (cases bs)
  case Nil
  then have "utf8_decode cp 2 lo hi bs = 0xFFFD # decode_all []" by (simp add: utf8_decode.simps)
  then show ?thesis by (metis le_refl list.size(3) Nil)
next
  case (Cons b bs')
  show ?thesis
  proof (cases "unat b < lo \<or> hi < unat b")
    case True
    with Cons have "utf8_decode cp 2 lo hi bs = 0xFFFD # decode_all bs" by (simp add: utf8_decode.simps)
    then show ?thesis by blast
  next
    case False
    with Cons have step: "utf8_decode cp 2 lo hi bs
                          = utf8_decode (cp * 64 + unat b mod 64) 1 0x80 0xBF bs'"
      by (simp add: utf8_decode.simps)
    from decode_last [of 128 "cp * 64 + unat b mod 64" 191 bs'] obtain c suf
      where c: "utf8_decode (cp * 64 + unat b mod 64) 1 0x80 0xBF bs' = c # decode_all suf"
        "length suf \<le> length bs'"
        "c = 0xFFFD \<or> (\<exists>b2. bs' = b2 # suf \<and> 128 \<le> unat b2 \<and> unat b2 \<le> 191
                          \<and> c = (cp * 64 + unat b mod 64) * 64 + unat b2 mod 64)"
      by auto
    from c(3) show ?thesis
    proof
      assume "c = 0xFFFD"
      with step c(1,2) Cons show ?thesis by auto
    next
      assume "\<exists>b2. bs' = b2 # suf \<and> 128 \<le> unat b2 \<and> unat b2 \<le> 191
                   \<and> c = (cp * 64 + unat b mod 64) * 64 + unat b2 mod 64"
      then obtain b2 where "bs' = b2 # suf" "128 \<le> unat b2" "unat b2 \<le> 191"
        "c = (cp * 64 + unat b mod 64) * 64 + unat b2 mod 64" by blast
      with step c(1) Cons False show ?thesis by auto
    qed
  qed
qed

lemma decode_3:
  assumes "128 \<le> lo" "lo \<le> 191"
  shows "\<exists>c suf. utf8_decode cp 3 lo hi bs = c # decode_all suf \<and> length suf \<le> length bs
           \<and> (c = 0xFFFD \<or> (\<exists>b1 b2 b3. bs = b1 # b2 # b3 # suf
                    \<and> lo \<le> unat b1 \<and> unat b1 \<le> hi
                    \<and> c = ((cp * 64 + unat b1 mod 64) * 64 + unat b2 mod 64) * 64
                          + unat b3 mod 64))"
proof (cases bs)
  case Nil
  then have "utf8_decode cp 3 lo hi bs = 0xFFFD # decode_all []" by (simp add: utf8_decode.simps)
  then show ?thesis by (metis le_refl list.size(3) Nil)
next
  case (Cons b bs')
  show ?thesis
  proof (cases "unat b < lo \<or> hi < unat b")
    case True
    with Cons have "utf8_decode cp 3 lo hi bs = 0xFFFD # decode_all bs" by (simp add: utf8_decode.simps)
    then show ?thesis by blast
  next
    case False
    with Cons have step: "utf8_decode cp 3 lo hi bs
                          = utf8_decode (cp * 64 + unat b mod 64) 2 0x80 0xBF bs'"
      by (simp add: utf8_decode.simps)
    from decode_2 [of 128 "cp * 64 + unat b mod 64" 191 bs'] obtain c suf
      where c: "utf8_decode (cp * 64 + unat b mod 64) 2 0x80 0xBF bs' = c # decode_all suf"
        "length suf \<le> length bs'"
        "c = 0xFFFD \<or> (\<exists>b2 b3. bs' = b2 # b3 # suf
              \<and> c = ((cp * 64 + unat b mod 64) * 64 + unat b2 mod 64) * 64 + unat b3 mod 64)"
      by auto
    from c(3) show ?thesis
    proof
      assume "c = 0xFFFD"
      with step c(1,2) Cons show ?thesis by auto
    next
      assume "\<exists>b2 b3. bs' = b2 # b3 # suf
              \<and> c = ((cp * 64 + unat b mod 64) * 64 + unat b2 mod 64) * 64 + unat b3 mod 64"
      then obtain b2 b3 where "bs' = b2 # b3 # suf"
        "c = ((cp * 64 + unat b mod 64) * 64 + unat b2 mod 64) * 64 + unat b3 mod 64" by blast
      with step c(1) Cons False show ?thesis by auto
    qed
  qed
qed


lemma byte_eq_numeral: "unat (b :: byte) = unat (c :: byte) \<Longrightarrow> b = c"
  by (simp add: word_unat_eq_iff)

lemma horner_64:
  assumes "(x * 64 + y) * 64 + z = (65279::nat)" "y < 64" "z < 64"
  shows "x = 15 \<and> y = 59 \<and> z = 63"
proof -
  define w where "w = x * 64 + y"
  have "w * 64 + z = 65279" using assms(1) by (simp add: w_def)
  with assms(3) have "z = 63 \<and> w = 1019" by presburger
  then have z: "z = 63" and "x * 64 + y = 1019" by (simp_all add: w_def)
  with assms(2) have "y = 59 \<and> x = 15" by presburger
  with z show ?thesis by simp
qed

lemma mod_range:
  assumes "k * m \<le> (n::nat)" "n < k * m + m"
  shows "n mod m = n - k * m"
proof -
  have "n - k * m < m" using assms by arith
  then have "(k * m + (n - k * m)) mod m = n - k * m" by (rule add_mod_small)
  with assms(1) show ?thesis by simp
qed

lemma decode_all_two:
  fixes b :: byte
  assumes "0xC2 \<le> unat b" "unat b \<le> 0xDF"
  shows "\<exists>c suf. decode_all (b # bs) = c # decode_all suf \<and> length suf \<le> length bs
           \<and> 128 \<le> c \<and> c < 0x140000 \<and> c \<noteq> 0xFEFF"
proof -
  define n where "n = unat b"
  have n: "194 \<le> n" "n \<le> 223" using assms by (simp_all add: n_def)
  have cp: "n mod 32 = n - 192" using mod_range [of 6 32 n] n by simp
  have step: "decode_all (b # bs) = utf8_decode (n - 192) 1 0x80 0xBF bs"
    using assms cp by (simp add: utf8_decode.simps n_def)
  have "\<exists>c suf. utf8_decode (n - 192) 1 0x80 0xBF bs = c # decode_all suf \<and> length suf \<le> length bs
           \<and> (c = 0xFFFD \<or> (\<exists>b. bs = b # suf \<and> 128 \<le> unat b \<and> unat b \<le> 191
                                  \<and> c = (n - 192) * 64 + unat b mod 64))"
    by (rule decode_last) simp_all
  then obtain c suf
    where cs: "utf8_decode (n - 192) 1 0x80 0xBF bs = c # decode_all suf \<and> length suf \<le> length bs
           \<and> (c = 0xFFFD \<or> (\<exists>b. bs = b # suf \<and> 128 \<le> unat b \<and> unat b \<le> 191
                                  \<and> c = (n - 192) * 64 + unat b mod 64))"
    by blast
  note c = cs [THEN conjunct1] cs [THEN conjunct2, THEN conjunct1]
    cs [THEN conjunct2, THEN conjunct2]
  have "128 \<le> c \<and> c < 0x140000 \<and> c \<noteq> 0xFEFF"
    using c(3)
  proof (elim disjE exE conjE)
    assume "c = 0xFFFD" then show ?thesis by simp
  next
    fix b2 assume c': "c = (n - 192) * 64 + unat b2 mod 64"
    have "unat b2 mod 64 < 64" by simp
    with c' n show ?thesis by arith
  qed
  with step c(1,2) show ?thesis by (intro exI [of _ c] exI [of _ suf]) simp
qed

lemma byte_of_unat:
  "unat (b :: byte) = 239 \<Longrightarrow> b = 0xEF"
  "unat (b :: byte) = 187 \<Longrightarrow> b = 0xBB"
  "unat (b :: byte) = 191 \<Longrightarrow> b = 0xBF"
  by (simp_all add: word_unat_eq_iff)

lemma decode_all_three:
  fixes b :: byte
  assumes "0xE0 \<le> unat b" "unat b \<le> 0xEF"
  shows "\<exists>c suf. decode_all (b # bs) = c # decode_all suf \<and> length suf \<le> length bs
           \<and> 128 \<le> c \<and> c < 0x140000 \<and> (c = 0xFEFF \<longrightarrow> b # bs = bom @ suf)"
proof -
  define n where "n = unat b"
  have n: "224 \<le> n" "n \<le> 239" using assms by (simp_all add: n_def)
  have cp: "n mod 16 = n - 224" using mod_range [of 14 16 n] n by simp
  define lo :: nat where "lo = (if n = 0xE0 then 0xA0 else 0x80)"
  define hi :: nat where "hi = (if n = 0xED then 0x9F else 0xBF)"
  have lohi: "128 \<le> lo" "lo \<le> 191" "hi \<le> 191" by (simp_all add: lo_def hi_def)
  have step: "decode_all (b # bs) = utf8_decode (n - 224) 2 lo hi bs"
    using assms cp by (simp add: utf8_decode.simps n_def lo_def hi_def)
  have "\<exists>c suf. utf8_decode (n - 224) 2 lo hi bs = c # decode_all suf \<and> length suf \<le> length bs
           \<and> (c = 0xFFFD \<or> (\<exists>b1 b2. bs = b1 # b2 # suf \<and> lo \<le> unat b1 \<and> unat b1 \<le> hi
                    \<and> 128 \<le> unat b2 \<and> unat b2 \<le> 191
                    \<and> c = ((n - 224) * 64 + unat b1 mod 64) * 64 + unat b2 mod 64))"
    by (rule decode_2) (rule lohi)+
  then obtain c suf
    where cs: "utf8_decode (n - 224) 2 lo hi bs = c # decode_all suf \<and> length suf \<le> length bs
           \<and> (c = 0xFFFD \<or> (\<exists>b1 b2. bs = b1 # b2 # suf \<and> lo \<le> unat b1 \<and> unat b1 \<le> hi
                    \<and> 128 \<le> unat b2 \<and> unat b2 \<le> 191
                    \<and> c = ((n - 224) * 64 + unat b1 mod 64) * 64 + unat b2 mod 64))"
    by blast
  note c = cs [THEN conjunct1] cs [THEN conjunct2, THEN conjunct1]
    cs [THEN conjunct2, THEN conjunct2]
  have "128 \<le> c \<and> c < 0x140000 \<and> (c = 0xFEFF \<longrightarrow> b # bs = bom @ suf)"
    using c(3)
  proof (elim disjE exE conjE)
    assume "c = 0xFFFD" then show ?thesis by simp
  next
    fix b1 b2
    assume bs: "bs = b1 # b2 # suf"
      and b1: "lo \<le> unat b1" "unat b1 \<le> hi"
      and b2: "128 \<le> unat b2" "unat b2 \<le> 191"
      and c': "c = ((n - 224) * 64 + unat b1 mod 64) * 64 + unat b2 mod 64"
    define x where "x = n - 224"
    define y where "y = unat b1 - 128"
    define z where "z = unat b2 - 128"
    have m1: "unat b1 mod 64 = y"
      unfolding y_def using mod_range [of 2 64 "unat b1"] b1 lohi by simp
    have m2: "unat b2 mod 64 = z"
      unfolding z_def using mod_range [of 2 64 "unat b2"] b2 by simp
    have c'': "c = (x * 64 + y) * 64 + z" using c' by (simp add: m1 m2 x_def)
    have x: "x < 16" using n by (simp add: x_def)
    have y: "y < 64" using b1 lohi by (simp add: y_def)
    have z: "z < 64" using b2 by (simp add: z_def)
    have low: "x = 0 \<Longrightarrow> 32 \<le> y" using b1(1) n by (simp add: lo_def x_def y_def)
    have ge: "128 \<le> c"
    proof (cases "x = 0")
      case True
      with low c'' show ?thesis by simp
    next
      case False
      with c'' show ?thesis by simp
    qed
    have lt: "c < 0x140000" using c'' x y z by simp
    have "b # bs = bom @ suf" if "c = 0xFEFF"
    proof -
      from that c'' have "(x * 64 + y) * 64 + z = 65279" by simp
      from horner_64 [OF this y z] have "x = 15" "y = 59" "z = 63" by simp_all
      with n b1 b2 lohi have "unat b = 239" "unat b1 = 187" "unat b2 = 191"
        by (simp_all add: x_def y_def z_def n_def)
      then have "b = 0xEF" "b1 = 0xBB" "b2 = 0xBF" by (simp_all add: byte_of_unat)
      with bs show ?thesis by (simp add: bom_def)
    qed
    with ge lt show ?thesis by simp
  qed
  with step c(1,2) show ?thesis by (intro exI [of _ c] exI [of _ suf]) simp
qed

lemma decode_all_four:
  fixes b :: byte
  assumes "0xF0 \<le> unat b" "unat b \<le> 0xF4"
  shows "\<exists>c suf. decode_all (b # bs) = c # decode_all suf \<and> length suf \<le> length bs
           \<and> 128 \<le> c \<and> c < 0x140000 \<and> c \<noteq> 0xFEFF"
proof -
  define n where "n = unat b"
  have n: "240 \<le> n" "n \<le> 244" using assms by (simp_all add: n_def)
  have cp: "n mod 8 = n - 240" using mod_range [of 30 8 n] n by simp
  define lo :: nat where "lo = (if n = 0xF0 then 0x90 else 0x80)"
  define hi :: nat where "hi = (if n = 0xF4 then 0x8F else 0xBF)"
  have lohi: "128 \<le> lo" "lo \<le> 191" "hi \<le> 191" by (simp_all add: lo_def hi_def)
  have step: "decode_all (b # bs) = utf8_decode (n - 240) 3 lo hi bs"
    using assms cp by (simp add: utf8_decode.simps n_def lo_def hi_def)
  have "\<exists>c suf. utf8_decode (n - 240) 3 lo hi bs = c # decode_all suf \<and> length suf \<le> length bs
           \<and> (c = 0xFFFD \<or> (\<exists>b1 b2 b3. bs = b1 # b2 # b3 # suf
                    \<and> lo \<le> unat b1 \<and> unat b1 \<le> hi
                    \<and> c = (((n - 240) * 64 + unat b1 mod 64) * 64 + unat b2 mod 64) * 64
                          + unat b3 mod 64))"
    by (rule decode_3) (rule lohi)+
  then obtain c suf
    where cs: "utf8_decode (n - 240) 3 lo hi bs = c # decode_all suf \<and> length suf \<le> length bs
           \<and> (c = 0xFFFD \<or> (\<exists>b1 b2 b3. bs = b1 # b2 # b3 # suf
                    \<and> lo \<le> unat b1 \<and> unat b1 \<le> hi
                    \<and> c = (((n - 240) * 64 + unat b1 mod 64) * 64 + unat b2 mod 64) * 64
                          + unat b3 mod 64))"
    by blast
  note c = cs [THEN conjunct1] cs [THEN conjunct2, THEN conjunct1]
    cs [THEN conjunct2, THEN conjunct2]
  have "128 \<le> c \<and> c < 0x140000 \<and> c \<noteq> 0xFEFF"
    using c(3)
  proof (elim disjE exE conjE)
    assume "c = 0xFFFD" then show ?thesis by simp
  next
    fix b1 b2 b3
    assume b1: "lo \<le> unat b1" "unat b1 \<le> hi"
      and c': "c = (((n - 240) * 64 + unat b1 mod 64) * 64 + unat b2 mod 64) * 64
                   + unat b3 mod 64"
    define x where "x = n - 240"
    define y where "y = unat b1 - 128"
    define z where "z = unat b2 mod 64"
    define w where "w = unat b3 mod 64"
    have m1: "unat b1 mod 64 = y"
      unfolding y_def using mod_range [of 2 64 "unat b1"] b1 lohi by simp
    have c'': "c = ((x * 64 + y) * 64 + z) * 64 + w"
      using c' by (simp add: m1 x_def z_def w_def)
    have x: "x < 5" using n by (simp add: x_def)
    have y: "y < 64" using b1 lohi by (simp add: y_def)
    have z: "z < 64" "w < 64" by (simp_all add: z_def w_def)
    have low: "x = 0 \<Longrightarrow> 16 \<le> y" using b1(1) n by (simp add: lo_def x_def y_def)
    have ge: "65536 \<le> c"
    proof (cases "x = 0")
      case True
      with low c'' show ?thesis by simp
    next
      case False
      with c'' show ?thesis by simp
    qed
    have lt: "c < 0x140000" using c'' x y z by simp
    from ge lt show ?thesis by simp
  qed
  with step c(1,2) show ?thesis by (intro exI [of _ c] exI [of _ suf]) simp
qed

lemma decode_all_bad:
  fixes b :: byte
  assumes "\<not> unat b \<le> 0x7F"
    and "\<not> (0xC2 \<le> unat b \<and> unat b \<le> 0xDF)" "\<not> (0xE0 \<le> unat b \<and> unat b \<le> 0xEF)"
    and "\<not> (0xF0 \<le> unat b \<and> unat b \<le> 0xF4)"
  shows "decode_all (b # bs) = 0xFFFD # decode_all bs"
proof (cases "unat b \<le> 193")
  case True
  with assms(1) show ?thesis by (simp add: utf8_decode.simps)
next
  case False
  with assms have "245 \<le> unat b" by linarith
  then show ?thesis by (simp add: utf8_decode.simps)
qed

lemma decode_all_lead:
  fixes b :: byte
  assumes "\<not> unat b \<le> 0x7F"
  shows "\<exists>c suf. decode_all (b # bs) = c # decode_all suf \<and> length suf \<le> length bs
           \<and> 128 \<le> c \<and> c < 0x140000 \<and> (c = 0xFEFF \<longrightarrow> b # bs = bom @ suf)"
proof -
  consider (two) "0xC2 \<le> unat b \<and> unat b \<le> 0xDF" | (three) "0xE0 \<le> unat b \<and> unat b \<le> 0xEF"
    | (four) "0xF0 \<le> unat b \<and> unat b \<le> 0xF4"
    | (bad) "\<not> (0xC2 \<le> unat b \<and> unat b \<le> 0xDF)" "\<not> (0xE0 \<le> unat b \<and> unat b \<le> 0xEF)"
            "\<not> (0xF0 \<le> unat b \<and> unat b \<le> 0xF4)"
    by blast
  then show ?thesis
  proof cases
    case two
    then have "\<exists>c suf. decode_all (b # bs) = c # decode_all suf \<and> length suf \<le> length bs
           \<and> 128 \<le> c \<and> c < 0x140000 \<and> c \<noteq> 0xFEFF"
      by (intro decode_all_two) simp_all
    then show ?thesis by blast
  next
    case three
    then show ?thesis by (intro decode_all_three) simp_all
  next
    case four
    then have "\<exists>c suf. decode_all (b # bs) = c # decode_all suf \<and> length suf \<le> length bs
           \<and> 128 \<le> c \<and> c < 0x140000 \<and> c \<noteq> 0xFEFF"
      by (intro decode_all_four) simp_all
    then show ?thesis by blast
  next
    case bad
    have "decode_all (b # bs) = 0xFFFD # decode_all bs" by (rule decode_all_bad [OF assms bad])
    then show ?thesis by (intro exI [of _ "0xFFFD"] exI [of _ bs]) simp
  qed
qed

text \<open>Every code point the decoder gives is below \<open>0x140000\<close>.\<close>

lemma decode_all_bound: "\<forall>c\<in>set (decode_all bs). c < 0x140000"
proof (induction "length bs" arbitrary: bs rule: less_induct)
  case less
  show ?case
  proof (cases bs)
    case Nil
    then show ?thesis by (simp add: utf8_decode.simps)
  next
    case (Cons b bs')
    show ?thesis
    proof (cases "unat b \<le> 0x7F")
      case True
      with Cons less [of bs'] show ?thesis by (simp add: decode_all_ascii)
    next
      case False
      from decode_all_lead [OF False, of bs'] obtain c suf
        where c: "decode_all (b # bs') = c # decode_all suf" "length suf \<le> length bs'" "c < 0x140000"
        by blast
      with Cons less [of suf] show ?thesis by simp
    qed
  qed
qed

text \<open>The decoder gives ASCII code points for ASCII bytes only.\<close>

lemma decode_all_ascii_only:
  "decode_all bs = ns \<Longrightarrow> \<forall>n\<in>set ns. n < 128 \<Longrightarrow> bs = map u8 ns"
proof (induction bs arbitrary: ns)
  case Nil
  then show ?case by (simp add: utf8_decode.simps)
next
  case (Cons b bs)
  show ?case
  proof (cases "unat b \<le> 0x7F")
    case True
    with Cons.prems(1) obtain ns' where ns: "ns = unat b # ns'" "decode_all bs = ns'"
      by (auto simp: decode_all_ascii)
    with Cons.IH [of ns'] Cons.prems(2) have "bs = map u8 ns'" by simp
    with ns show ?thesis by (simp add: u8_def)
  next
    case False
    from decode_all_lead [OF False, of bs] obtain c suf
      where "decode_all (b # bs) = c # decode_all suf" "128 \<le> c"
      by blast
    with Cons.prems show ?thesis by auto
  qed
qed

lemma decode_all_bom_only:
  assumes "decode_all bs = 0xFEFF # ns" "\<forall>n\<in>set ns. n < 128"
  shows "bs = bom @ map u8 ns"
proof (cases bs)
  case Nil
  with assms(1) show ?thesis by (simp add: utf8_decode.simps)
next
  case (Cons b bs')
  show ?thesis
  proof (cases "unat b \<le> 0x7F")
    case True
    with Cons assms(1) show ?thesis by (simp add: decode_all_ascii)
  next
    case False
    from decode_all_lead [OF False, of bs'] obtain c suf
      where c: "decode_all (b # bs') = c # decode_all suf" "c = 0xFEFF \<longrightarrow> b # bs' = bom @ suf"
      by blast
    with Cons assms(1) have "c = 0xFEFF" "decode_all suf = ns" "bs = bom @ suf" by simp_all
    with decode_all_ascii_only [OF _ assms(2), of suf] show ?thesis by simp
  qed
qed

lemma decode_all_bom: "decode_all (bom @ bs) = 0xFEFF # decode_all bs"
  by (simp add: bom_def utf8_decode.simps)

lemma u16_inj: "a < 65536 \<Longrightarrow> b < 65536 \<Longrightarrow> u16 a = u16 b \<Longrightarrow> a = b"
  by (metis unat_u16)

lemma utf16_ascii_only:
  "\<forall>c\<in>set xs. c < 0x140000 \<Longrightarrow> concat (map utf16_of_cp xs) = map u16 ns \<Longrightarrow>
   \<forall>n\<in>set ns. n < 128 \<Longrightarrow> xs = ns"
proof (induction xs arbitrary: ns)
  case Nil
  then show ?case by simp
next
  case (Cons x xs)
  show ?case
  proof (cases "x < 0x10000")
    case True
    then have head: "utf16_of_cp x = [u16 x]" by (simp add: utf16_of_cp_def)
    with Cons.prems(2) obtain n ns' where ns: "ns = n # ns'" "u16 x = u16 n"
      "concat (map utf16_of_cp xs) = map u16 ns'"
      by (cases ns) auto
    from ns(1) Cons.prems(3) have "n < 65536" by simp
    with True ns(2) have "x = n" by (intro u16_inj) simp_all
    moreover from Cons.IH [OF _ ns(3)] Cons.prems(1,3) ns(1) have "xs = ns'" by simp
    ultimately show ?thesis using ns(1) by simp
  next
    case False
    define h where "h = 0xD800 + (x - 0x10000) div 0x400"
    from Cons.prems(1) have "x < 0x140000" by simp
    then have "(x - 0x10000) div 0x400 < 0x4C0" by simp
    then have h: "h < 65536" "0xD800 \<le> h" by (simp_all add: h_def)
    from False have head: "utf16_of_cp x = [u16 h, u16 (0xDC00 + (x - 0x10000) mod 0x400)]"
      by (simp add: utf16_of_cp_def h_def)
    with Cons.prems(2) obtain n ns' where ns: "ns = n # ns'" "u16 h = u16 n"
      by (cases ns) auto
    from ns(1) Cons.prems(3) have n: "n < 128" by simp
    with h ns(2) have "h = n" by (intro u16_inj) simp_all
    with h n show ?thesis by simp
  qed
qed

lemma lit_ascii: "lit s = map u16 (map of_char s)" "ascii s = map u8 (map of_char s)"
  by (simp_all add: lit_def ascii_def)

text \<open>The only byte strings that decode to an ASCII name: the name, and the name after a BOM.\<close>

lemma decode_names:
  assumes s: "\<forall>c\<in>set s. (of_char c :: nat) < 128" and dec: "TextDecoder_decode bs = lit s"
  shows "bs = ascii s \<or> bs = bom @ ascii s"
proof -
  define ns :: "nat list" where "ns = map of_char s"
  have ns: "\<forall>n\<in>set ns. n < 128" using s by (simp add: ns_def)
  have bound: "\<forall>c\<in>set (strip_bom (decode_all bs)). c < 0x140000"
    using decode_all_bound [of bs] by (cases "decode_all bs") (simp_all add: strip_bom_def)
  have "concat (map utf16_of_cp (strip_bom (decode_all bs))) = map u16 ns"
    using dec by (simp add: TextDecoder_decode_def lit_ascii ns_def)
  from utf16_ascii_only [OF bound this ns] have strip: "strip_bom (decode_all bs) = ns" .
  show ?thesis
  proof (cases "decode_all bs")
    case Nil
    with strip have "ns = []" by (simp add: strip_bom_def)
    with decode_all_ascii_only [OF Nil] show ?thesis by (simp add: lit_ascii ns_def)
  next
    case (Cons c rest)
    show ?thesis
    proof (cases "c = 0xFEFF")
      case True
      with Cons strip have "decode_all bs = 0xFEFF # ns" by (simp add: strip_bom_def)
      from decode_all_bom_only [OF this ns] show ?thesis by (simp add: lit_ascii ns_def)
    next
      case False
      with Cons strip have "decode_all bs = ns" by (simp add: strip_bom_def)
      from decode_all_ascii_only [OF this ns] show ?thesis by (simp add: lit_ascii ns_def)
    qed
  qed
qed

section \<open>One chunk at a time\<close>

lemma length_serialize: "wf_chunk c \<Longrightarrow> length (serialize c) = 12 + length (cdata c)"
  by (simp add: serialize_def wf_chunk_def)

lemma chunk_fields:
  assumes "wf_chunk c" and "buf = pre @ serialize c @ rest" and "off = length pre"
  shows "getUint32 buf off = Inr (length (cdata c))"
    and "slice buf (off + 4) (off + 8) = ctype c"
    and "slice buf (off + 8) (off + 8 + length (cdata c)) = cdata c"
    and "length buf = off + 8 + length (cdata c) + 4 + length rest"
proof -
  show "getUint32 buf off = Inr (length (cdata c))"
    using assms getUint32_setUint32 [of "length (cdata c)" pre]
    by (simp add: serialize_def wf_chunk_def)
  show "slice buf (off + 4) (off + 8) = ctype c"
    using assms by (simp add: slice_def serialize_def wf_chunk_def)
  show "slice buf (off + 8) (off + 8 + length (cdata c)) = cdata c"
    using assms by (simp add: slice_def serialize_def wf_chunk_def)
  show "length buf = off + 8 + length (cdata c) + 4 + length rest"
    using assms by (simp add: serialize_def wf_chunk_def)
qed

lemma read_loop_chunk:
  assumes wf: "wf_chunk c"
  shows "read_loop (pre @ serialize c @ rest) (length pre) =
     (case (if ctype c = ascii ''tEXt'' then tEXt_payload (cdata c) else None) of
        Some text \<Rightarrow> Inr (Some text)
      | None \<Rightarrow>
          if ctype c = ascii ''IEND'' then Inr None
          else read_loop (pre @ serialize c @ rest) (length pre + length (serialize c)))"
proof -
  define buf where "buf = pre @ serialize c @ rest"
  define off where "off = length pre"
  note f = chunk_fields [OF wf buf_def off_def]
  have next_off: "off + (12 + length (cdata c)) = off + length (serialize c)"
    by (simp add: length_serialize [OF wf])
  have "read_loop buf off =
     (case (if ctype c = ascii ''tEXt'' then tEXt_payload (cdata c) else None) of
        Some text \<Rightarrow> Inr (Some text)
      | None \<Rightarrow>
          if ctype c = ascii ''IEND'' then Inr None
          else read_loop buf (off + length (serialize c)))"
    apply (subst read_loop.simps)
    unfolding f(1) sum.case Let_def
    unfolding f(2) f(3) fromCharCode_eq_lit next_off
    using f(4) by simp
  then show ?thesis unfolding buf_def off_def .
qed

lemma at_start_simps [simp]:
  "elements (at_start bs aft) = bs" "buffer_of (at_start bs aft) = bs @ aft"
  "byteOffset (at_start bs aft) = 0"
  by (simp_all add: at_start_def buffer_of_def byteOffset_def)

lemma whole_simps [simp]:
  "elements (whole bs) = bs" "buffer_of (whole bs) = bs" "byteOffset (whole bs) = 0"
  by (simp_all add: whole_def buffer_of_def byteOffset_def)

lemma whole_at_start: "whole bs = at_start bs []"
  by (simp add: at_start_def whole_def)

lemma write_loop_chunk:
  assumes wf: "wf_chunk c"
  shows "write_loop (at_start (pre @ serialize c @ rest) aft) chunk (length pre) =
     (if ctype c = ascii ''IHDR'' then Inr (whole (pre @ serialize c @ chunk @ rest))
      else write_loop (at_start (pre @ serialize c @ rest) aft) chunk
             (length pre + length (serialize c)))"
proof -
  define els where "els = pre @ serialize c @ rest"
  define buf where "buf = pre @ serialize c @ (rest @ aft)"
  define off where "off = length pre"
  note f = chunk_fields [OF wf buf_def off_def]
  note g = chunk_fields [OF wf els_def off_def]
  have buf: "els @ aft = buf" by (simp add: els_def buf_def)
  have next_off: "off + 8 + length (cdata c) + 4 = off + length (serialize c)"
    by (simp add: length_serialize [OF wf])
  have "write_loop (at_start els aft) chunk off =
     (if ctype c = ascii ''IHDR''
      then Inr (whole (take (off + length (serialize c)) els @ chunk
                       @ drop (off + length (serialize c)) els))
      else write_loop (at_start els aft) chunk (off + length (serialize c)))"
    apply (subst write_loop.simps)
    unfolding at_start_simps buf f(1) sum.case Let_def
    unfolding g(2) fromCharCode_eq_lit next_off slice_from_def
    using g(4) by (simp add: slice_def length_serialize [OF wf])
  moreover have "take (off + length (serialize c)) els = pre @ serialize c"
    and "drop (off + length (serialize c)) els = rest"
    by (simp_all add: els_def off_def)
  ultimately have "write_loop (at_start els aft) chunk off =
     (if ctype c = ascii ''IHDR'' then Inr (whole (pre @ serialize c @ chunk @ rest))
      else write_loop (at_start els aft) chunk (off + length (serialize c)))"
    by simp
  then show ?thesis unfolding els_def off_def .
qed


section \<open>Streams of chunks\<close>

lemma chunks_bytes_simps [simp]:
  "chunks_bytes [] = []"
  "chunks_bytes (c # cs) = serialize c @ chunks_bytes cs"
  "chunks_bytes (cs @ ds) = chunks_bytes cs @ chunks_bytes ds"
  by (simp_all add: chunks_bytes_def)

text \<open>
  The keyword of the model and the keyword of the code: the code finds the index of the
  first zero byte and decodes the bytes before it.
\<close>

lemma null_scan_takeWhile:
  "0 \<in> set xs \<Longrightarrow> null_scan xs i = Some (i + length (takeWhile (\<lambda>b. b \<noteq> 0) xs))"
  by (induction xs arbitrary: i) auto

lemma nullIndex_keyword:
  "0 \<in> set d \<Longrightarrow> nullIndex d = Some (length (takeWhile (\<lambda>b. b \<noteq> 0) d))"
  by (simp add: nullIndex_def null_scan_takeWhile)

lemma tEXt_payload_keyword:
  "tEXt_payload d =
     (case keyword_of d of
        None \<Rightarrow> None
      | Some k \<Rightarrow>
          if TextDecoder_decode k = lit ''parameters''
             \<or> TextDecoder_decode k = lit ''BananaProData''
          then Some (TextDecoder_decode (drop (length k + 1) d))
          else None)"
proof (cases "0 \<in> set d")
  case False
  then show ?thesis by (simp add: tEXt_payload_def keyword_of_def nullIndex_none)
next
  case True
  have "take (length (takeWhile (\<lambda>b. b \<noteq> 0) d)) d = takeWhile (\<lambda>b. b \<noteq> 0) d"
    by (rule takeWhile_eq_take [symmetric])
  with True show ?thesis
    by (simp add: tEXt_payload_def keyword_of_def nullIndex_keyword slice_def slice_from_def
        Let_def)
qed

lemma keyword_of_append: "0 \<notin> set k \<Longrightarrow> keyword_of (k @ 0 # rest) = Some k"
  by (induction k) (auto simp: keyword_of_def)

lemma decode_all_ascii_list:
  "\<forall>c\<in>set s. (of_char c :: nat) < 128 \<Longrightarrow>
   decode_all (ascii s @ bs) = map of_char s @ decode_all bs"
proof (induction s)
  case Nil
  then show ?case by (simp add: ascii_def)
next
  case (Cons c s)
  then have "unat (u8 (of_char c)) = of_char c" by (simp add: unat_u8)
  with Cons show ?case by (simp add: ascii_def decode_all_ascii)
qed

lemma utf16_ascii_list:
  "\<forall>c\<in>set s. (of_char c :: nat) < 128 \<Longrightarrow> concat (map utf16_of_cp (map of_char s)) = lit s"
  by (induction s) (simp_all add: lit_def utf16_of_cp_def)

lemma decode_ascii:
  "\<forall>c\<in>set s. (of_char c :: nat) < 128 \<Longrightarrow> TextDecoder_decode (ascii s) = lit s"
  using decode_encode_lit [of s] by (simp add: encode_lit)

lemma decode_bom_ascii:
  assumes "\<forall>c\<in>set s. (of_char c :: nat) < 128"
  shows "TextDecoder_decode (bom @ ascii s) = lit s"
proof -
  have "decode_all (bom @ ascii s @ []) = 0xFEFF # map of_char s"
    by (simp only: decode_all_bom decode_all_ascii_list [OF assms])
       (simp add: utf8_decode.simps)
  then show ?thesis
    using utf16_ascii_list [OF assms] by (simp add: TextDecoder_decode_def strip_bom_def)
qed

text \<open>The byte strings that decode to a name are the name and the name after a BOM.\<close>

lemma decode_name_iff:
  assumes "\<forall>c\<in>set s. (of_char c :: nat) < 128"
  shows "TextDecoder_decode k = lit s \<longleftrightarrow> k = ascii s \<or> k = bom @ ascii s"
  using decode_names [OF assms, of k] decode_ascii [OF assms] decode_bom_ascii [OF assms]
  by auto

lemma names_are_ascii:
  "\<forall>c\<in>set ''parameters''. (of_char c :: nat) < 128"
  "\<forall>c\<in>set ''BananaProData''. (of_char c :: nat) < 128"
  by simp_all

text \<open>A chunk is recognized exactly when the reader returns a text for it.\<close>

lemma payload_recognized:
  "(if ctype c = ascii ''tEXt'' then tEXt_payload (cdata c) else None) \<noteq> None
   \<longleftrightarrow> recognized c"
  by (cases "keyword_of (cdata c)")
     (simp_all add: recognized_def named_def named_after_bom_def tEXt_payload_keyword
        decode_name_iff [OF names_are_ascii(1)] decode_name_iff [OF names_are_ascii(2)])

lemma not_recognized_payload:
  "\<not> recognized c \<Longrightarrow> (if ctype c = ascii ''tEXt'' then tEXt_payload (cdata c) else None) = None"
  using payload_recognized [of c] by blast

lemma named_payload:
  assumes "s = ''parameters'' \<or> s = ''BananaProData''" and "k = ascii s \<or> k = bom @ ascii s"
    and "0 \<notin> set k"
  shows "tEXt_payload (k @ 0 # txt) = Some (TextDecoder_decode txt)"
proof -
  have "TextDecoder_decode k = lit s"
    using assms(1,2) decode_name_iff [OF names_are_ascii(1), of k]
      decode_name_iff [OF names_are_ascii(2), of k] by blast
  with assms(1) show ?thesis
    by (auto simp: tEXt_payload_keyword keyword_of_append [OF assms(3)])
qed

lemma type_names_differ:
  "ascii ''IHDR'' \<noteq> ascii ''tEXt''" "ascii ''IHDR'' \<noteq> ascii ''IEND''"
  "ascii ''tEXt'' \<noteq> ascii ''IEND''" "ascii ''tEXt'' \<noteq> ascii ''IHDR''"
  by (simp_all add: ascii_def u8_def)

lemma read_loop_end: "length buf \<le> off \<Longrightarrow> read_loop buf off = Inr None"
  by (subst read_loop.simps) simp

lemma write_loop_end:
  "length (elements png) \<le> off \<Longrightarrow> write_loop png chunk off = Inr png"
  by (subst write_loop.simps) simp

lemma read_loop_skip:
  assumes "\<forall>c\<in>set cs. wf_chunk c \<and> \<not> recognized c \<and> ctype c \<noteq> ascii ''IEND''"
  shows "read_loop (pre @ chunks_bytes cs @ rest) (length pre)
         = read_loop (pre @ chunks_bytes cs @ rest) (length pre + length (chunks_bytes cs))"
  using assms
proof (induction cs arbitrary: pre)
  case Nil
  then show ?case by simp
next
  case (Cons c cs)
  then have c: "wf_chunk c" "\<not> recognized c" "ctype c \<noteq> ascii ''IEND''" by simp_all
  have "read_loop (pre @ serialize c @ chunks_bytes cs @ rest) (length pre)
        = read_loop (pre @ serialize c @ chunks_bytes cs @ rest) (length pre + length (serialize c))"
    by (simp add: read_loop_chunk [OF c(1)] not_recognized_payload [OF c(2)] c(3))
  also have "\<dots> = read_loop ((pre @ serialize c) @ chunks_bytes cs @ rest)
                     (length (pre @ serialize c) + length (chunks_bytes cs))"
    using Cons.IH [of "pre @ serialize c"] Cons.prems by simp
  finally show ?case by (simp add: add.assoc)
qed

lemma read_loop_none:
  assumes "\<forall>c\<in>set cs. wf_chunk c \<and> \<not> recognized c"
  shows "read_loop (pre @ chunks_bytes cs) (length pre) = Inr None"
  using assms
proof (induction cs arbitrary: pre)
  case Nil
  then show ?case by (simp add: read_loop_end)
next
  case (Cons c cs)
  then have c: "wf_chunk c" "\<not> recognized c" by simp_all
  have "read_loop (pre @ serialize c @ chunks_bytes cs) (length pre)
        = (if ctype c = ascii ''IEND'' then Inr None
           else read_loop (pre @ serialize c @ chunks_bytes cs) (length pre + length (serialize c)))"
    by (simp add: read_loop_chunk [OF c(1)] not_recognized_payload [OF c(2)])
  moreover have "read_loop ((pre @ serialize c) @ chunks_bytes cs) (length (pre @ serialize c))
                 = Inr None"
    using Cons.IH [of "pre @ serialize c"] Cons.prems by simp
  ultimately show ?case by simp
qed

lemma write_loop_skip:
  assumes "\<forall>c\<in>set cs. wf_chunk c \<and> ctype c \<noteq> ascii ''IHDR''"
  shows "write_loop (at_start (pre @ chunks_bytes cs @ rest) aft) chunk (length pre)
         = write_loop (at_start (pre @ chunks_bytes cs @ rest) aft) chunk
             (length pre + length (chunks_bytes cs))"
  using assms
proof (induction cs arbitrary: pre)
  case Nil
  then show ?case by simp
next
  case (Cons c cs)
  then have c: "wf_chunk c" "ctype c \<noteq> ascii ''IHDR''" by simp_all
  have "write_loop (at_start (pre @ serialize c @ chunks_bytes cs @ rest) aft) chunk (length pre)
        = write_loop (at_start (pre @ serialize c @ chunks_bytes cs @ rest) aft) chunk
            (length pre + length (serialize c))"
    by (simp only: write_loop_chunk [OF c(1)] c(2) if_False)
  also have "\<dots> = write_loop (at_start ((pre @ serialize c) @ chunks_bytes cs @ rest) aft) chunk
                     (length (pre @ serialize c) + length (chunks_bytes cs))"
    using Cons.IH [of "pre @ serialize c"] Cons.prems by simp
  finally show ?case by (simp add: add.assoc)
qed

section \<open>The signature\<close>

lemma length_png_signature [simp]: "length png_signature = 8"
  by (simp add: png_signature_def)

lemma extract_after_signature:
  "extractPngMetadata (png_signature @ xs) = read_loop (png_signature @ xs) 8"
  by (simp add: extractPngMetadata_def getUint32_def png_signature_def)

lemma write_after_signature:
  "elements png = png_signature @ xs \<Longrightarrow>
   writePngMetadata png key val = write_loop png (tEXt_chunk key val) 8"
  by (simp add: writePngMetadata_def byte_at_def png_signature_def)

lemma tEXt_chunk_serialize: "tEXt_chunk key val = serialize (new_chunk key val)"
  by (simp add: tEXt_chunk_def serialize_def new_chunk_def mk_chunk_def ascii_tEXt Let_def)

section \<open>The walk of the reader\<close>

lemma visited_unfold:
  "visited buffer offset =
     offset # (case next_offset buffer offset of None \<Rightarrow> [] | Some n \<Rightarrow> visited buffer n)"
  by (subst visited.simps)
     (simp add: next_offset_def Let_def split: sum.splits option.splits)

lemma read_loop_next:
  "next_offset buffer offset = Some n \<Longrightarrow> read_loop buffer offset = read_loop buffer n"
  by (subst read_loop.simps)
     (auto simp: next_offset_def Let_def split: sum.splits option.splits if_splits)

lemma next_offset_bounds:
  "next_offset buffer offset = Some n \<Longrightarrow> offset < n \<and> n \<le> length buffer"
  by (auto simp: next_offset_def Let_def split: sum.splits option.splits if_splits)

lemma read_loop_stop:
  "next_offset buffer offset = None \<Longrightarrow> read_loop buffer offset \<noteq> Inl e"
  by (subst read_loop.simps)
     (auto simp: next_offset_def getUint32_def Let_def split: sum.splits option.splits if_splits)

lemma visited_walk:
  "off \<in> set (visited buffer start) \<Longrightarrow>
   read_loop buffer start = read_loop buffer off
   \<and> (\<exists>ys. visited buffer start = ys @ visited buffer off)"
proof (induction "length buffer - start" arbitrary: start rule: less_induct)
  case less
  show ?case
  proof (cases "off = start")
    case True
    then show ?thesis by simp
  next
    case False
    have "off \<in> set (start # (case next_offset buffer start of None \<Rightarrow> []
                                 | Some n \<Rightarrow> visited buffer n))"
      using less.prems visited_unfold [of buffer start] by simp
    with False obtain n where n: "next_offset buffer start = Some n"
      and off: "off \<in> set (visited buffer n)"
      by (cases "next_offset buffer start") auto
    from next_offset_bounds [OF n] have "length buffer - n < length buffer - start" by arith
    from less.hyps [OF this off] obtain ys
      where 1: "read_loop buffer n = read_loop buffer off"
        and 2: "visited buffer n = ys @ visited buffer off"
      by blast
    have "visited buffer start = (start # ys) @ visited buffer off"
      by (subst visited_unfold) (simp add: n 2)
    with 1 read_loop_next [OF n] show ?thesis by metis
  qed
qed

section \<open>Results on the writer\<close>

lemma write_loop_result:
  "write_loop png chunk pos = Inr out \<Longrightarrow>
   out = png \<or> (\<exists>ip\<le>length (elements png).
                  out = whole (take ip (elements png) @ chunk @ drop ip (elements png)))"
proof (induction png chunk pos rule: write_loop.induct)
  case (1 originalPng chunk pos)
  show ?case
  proof (cases "pos < length (elements originalPng)")
    case False
    with "1.prems" show ?thesis by (subst (asm) write_loop.simps) simp
  next
    case True
    show ?thesis
    proof (cases "getUint32 (buffer_of originalPng) pos")
      case (Inl e)
      with True "1.prems" show ?thesis by (subst (asm) write_loop.simps) simp
    next
      case (Inr chunkLen)
      show ?thesis
      proof (cases "fromCharCode (slice (elements originalPng) (pos + 4) (pos + 8)) = lit ''IHDR''")
        case False
        with True Inr "1.prems"
        have "write_loop originalPng chunk (pos + 8 + chunkLen + 4) = Inr out"
          by (subst (asm) write_loop.simps) (simp add: Let_def)
        with "1.IH" [OF True Inr refl False] show ?thesis .
      next
        case ihdr: True
        define ip where "ip = pos + 8 + chunkLen + 4"
        from True Inr ihdr "1.prems"
        have "ip \<le> length (elements originalPng)
              \<and> out = whole (take ip (elements originalPng) @ chunk @ drop ip (elements originalPng))"
          by (subst (asm) write_loop.simps)
             (simp add: Let_def slice_def slice_from_def ip_def split: if_splits)
        then show ?thesis by blast
      qed
    qed
  qed
qed

lemma writePngMetadata_result:
  assumes "writePngMetadata png key val = Inr out" and "out \<noteq> png"
  shows "\<exists>ip\<le>length (elements png).
           out = whole (take ip (elements png) @ tEXt_chunk key val @ drop ip (elements png))"
  using assms write_loop_result [of png "tEXt_chunk key val" 8 out]
  by (auto simp: writePngMetadata_def Let_def split: if_splits)

lemma ascii_tEXt_bytes: "ascii ''tEXt'' = [0x74, 0x45, 0x58, 0x74]"
  by (simp add: ascii_def u8_def)

lemma tEXt_chunk_layout:
  "tEXt_chunk key val =
     setUint32 (length (TextEncoder_encode key @ [0] @ TextEncoder_encode val))
     @ [0x74, 0x45, 0x58, 0x74]
     @ (TextEncoder_encode key @ [0] @ TextEncoder_encode val)
     @ setUint32 (unat (crc32 ([0x74, 0x45, 0x58, 0x74]
                               @ (TextEncoder_encode key @ [0] @ TextEncoder_encode val))))"
  by (simp add: tEXt_chunk_def Let_def ascii_tEXt ascii_tEXt_bytes)

lemma encode_inserts:
  assumes pre: "\<forall>c\<in>set pre. wf_chunk c \<and> ctype c \<noteq> ascii ''IHDR''"
    and ih: "wf_chunk ih" "ctype ih = ascii ''IHDR''"
  shows "writePngMetadata (at_start (png_bytes (pre @ ih # post)) aft) key val
         = Inr (whole (png_bytes (pre @ ih # new_chunk key val # post)))"
proof -
  let ?buf = "png_signature @ chunks_bytes pre @ serialize ih @ chunks_bytes post"
  let ?chunk = "tEXt_chunk key val"
  have "writePngMetadata (at_start ?buf aft) key val = write_loop (at_start ?buf aft) ?chunk 8"
    by (rule write_after_signature) simp
  also have "\<dots> = write_loop (at_start ?buf aft) ?chunk
                      (length png_signature + length (chunks_bytes pre))"
    using write_loop_skip [OF pre, of png_signature "serialize ih @ chunks_bytes post" aft ?chunk]
    by simp
  also have "\<dots> = write_loop
                      (at_start ((png_signature @ chunks_bytes pre) @ serialize ih
                                 @ chunks_bytes post) aft)
                      ?chunk (length (png_signature @ chunks_bytes pre))"
    by simp
  also have "\<dots> = Inr (whole ((png_signature @ chunks_bytes pre) @ serialize ih @ ?chunk
                                @ chunks_bytes post))"
    by (simp only: write_loop_chunk [OF ih(1)] ih(2) refl if_True)
  finally show ?thesis
    by (simp add: png_bytes_def tEXt_chunk_serialize)
qed

lemma encode_unchanged_bad_signature:
  assumes "byte_at (elements png) 0 \<noteq> Some 137 \<or> byte_at (elements png) 1 \<noteq> Some 80
           \<or> byte_at (elements png) 2 \<noteq> Some 78 \<or> byte_at (elements png) 3 \<noteq> Some 71"
  shows "writePngMetadata png key val = Inr png"
  using assms by (simp add: writePngMetadata_def Let_def)

lemma encode_unchanged_no_IHDR:
  assumes "\<forall>c\<in>set cs. wf_chunk c \<and> ctype c \<noteq> ascii ''IHDR''"
  shows "writePngMetadata (at_start (png_bytes cs) aft) key val = Inr (at_start (png_bytes cs) aft)"
proof -
  let ?buf = "png_signature @ chunks_bytes cs"
  have "writePngMetadata (at_start ?buf aft) key val
        = write_loop (at_start ?buf aft) (tEXt_chunk key val) 8"
    by (rule write_after_signature) simp
  also have "\<dots> = write_loop (at_start ?buf aft) (tEXt_chunk key val)
                      (length png_signature + length (chunks_bytes cs))"
    using write_loop_skip [OF assms, of png_signature "[]" aft "tEXt_chunk key val"] by simp
  also have "\<dots> = Inr (at_start ?buf aft)" by (rule write_loop_end) simp
  finally show ?thesis by (simp add: png_bytes_def)
qed

section \<open>Results on the reader\<close>

lemma wf_new_chunk:
  "wf_chunk (new_chunk key val) \<longleftrightarrow>
   length (TextEncoder_encode key) + 1 + length (TextEncoder_encode val) < 2 ^ 32"
  by (simp add: wf_chunk_def new_chunk_def mk_chunk_def ascii_def)

lemma IHDR_not_recognized: "ctype c = ascii ''IHDR'' \<Longrightarrow> \<not> recognized c"
  by (simp add: recognized_def type_names_differ)

lemma decode_finds_new_chunk:
  assumes pre: "\<forall>c\<in>set pre. wf_chunk c \<and> \<not> recognized c \<and> ctype c \<noteq> ascii ''IEND''"
    and ih: "wf_chunk ih" "ctype ih = ascii ''IHDR''"
    and key: "key = lit ''BananaProData'' \<or> key = lit ''parameters''"
    and len: "length (TextEncoder_encode key) + 1 + length (TextEncoder_encode val) < 2 ^ 32"
  shows "extractPngMetadata (png_bytes (pre @ ih # new_chunk key val # post))
         = Inr (Some (TextDecoder_decode (TextEncoder_encode val)))"
proof -
  let ?new = "new_chunk key val"
  let ?buf = "png_signature @ chunks_bytes (pre @ [ih]) @ serialize ?new @ chunks_bytes post"
  have skip: "\<forall>c\<in>set (pre @ [ih]). wf_chunk c \<and> \<not> recognized c \<and> ctype c \<noteq> ascii ''IEND''"
    using pre ih by (auto simp: IHDR_not_recognized type_names_differ)
  have wf: "wf_chunk ?new" using len by (simp add: wf_new_chunk)
  have new: "ctype ?new = ascii ''tEXt''"
    "cdata ?new = TextEncoder_encode key @ [0] @ TextEncoder_encode val"
    by (simp_all add: new_chunk_def mk_chunk_def)
  have "extractPngMetadata ?buf = read_loop ?buf 8"
    by (rule extract_after_signature)
  also have "\<dots> = read_loop ?buf (length png_signature + length (chunks_bytes (pre @ [ih])))"
    using read_loop_skip [OF skip, of png_signature "serialize ?new @ chunks_bytes post"]
    by simp
  also have "\<dots> = read_loop ((png_signature @ chunks_bytes (pre @ [ih])) @ serialize ?new
                                 @ chunks_bytes post)
                      (length (png_signature @ chunks_bytes (pre @ [ih])))"
    by simp
  also have "\<dots> = Inr (Some (TextDecoder_decode (TextEncoder_encode val)))"
    by (simp only: read_loop_chunk [OF wf] new tEXt_payload_key [OF key] refl if_True
          option.case)
  finally show ?thesis by (simp add: png_bytes_def)
qed

lemma decode_encoded_text:
  assumes "\<forall>c\<in>set pre. wf_chunk c \<and> ctype c \<noteq> ascii ''IHDR'' \<and> ctype c \<noteq> ascii ''IEND''
                         \<and> \<not> recognized c"
    and "wf_chunk ih" "ctype ih = ascii ''IHDR''"
    and "key = lit ''BananaProData'' \<or> key = lit ''parameters''"
    and "length (TextEncoder_encode key) + 1 + length (TextEncoder_encode val) < 2 ^ 32"
  shows "decode_encoded (at_start (png_bytes (pre @ ih # post)) aft) key val
         = Inr (Some (TextDecoder_decode (TextEncoder_encode val)))"
proof -
  have "writePngMetadata (at_start (png_bytes (pre @ ih # post)) aft) key val
        = Inr (whole (png_bytes (pre @ ih # new_chunk key val # post)))"
    using assms(1-3) by (intro encode_inserts) auto
  moreover have "extractPngMetadata (png_bytes (pre @ ih # new_chunk key val # post))
        = Inr (Some (TextDecoder_decode (TextEncoder_encode val)))"
    using assms by (intro decode_finds_new_chunk) auto
  ultimately show ?thesis by (simp add: decode_encoded_def)
qed

lemma P0_chunks:
  "P0 = png_bytes ([] @ mk_chunk ''IHDR'' ihdr_data # [mk_chunk ''IEND'' []])"
  "wf_chunk (mk_chunk ''IHDR'' ihdr_data)" "ctype (mk_chunk ''IHDR'' ihdr_data) = ascii ''IHDR''"
  "wf_chunk (mk_chunk ''IEND'' [])" "ctype (mk_chunk ''IEND'' []) = ascii ''IEND''"
  by (simp_all add: P0_def mk_chunk_def wf_chunk_def ascii_def ihdr_data_def)

lemma length_encode_lit:
  "\<forall>c\<in>set s. (of_char c :: nat) < 128 \<Longrightarrow> length (TextEncoder_encode (lit s)) = length s"
  by (simp add: encode_lit ascii_def)

lemma key_lengths:
  "length (TextEncoder_encode (lit ''parameters'')) = 10"
  "length (TextEncoder_encode (lit ''BananaProData'')) = 13"
  by (simp_all add: key_bytes ascii_def)

section \<open>The checksum is a function of its input\<close>

text \<open>
  C9.  The checksum is deterministic: equal byte sequences have equal 32-bit checksums.  The
  checksum of the empty byte sequence is 0.
\<close>

theorem crc32_deterministic:
  "crc32 [] = 0 \<and> (\<forall>xs ys. xs = ys \<longrightarrow> crc32 xs = crc32 ys)"
  by (simp add: crc32_def)

text \<open>An instance with two spellings of the same three bytes.\<close>

theorem crc32_deterministic_witness:
  "crc32 [] = 0 \<and> crc32 ([1, 2] @ [3]) = crc32 [1, 2, 3]"
proof -
  have eq: "([1, 2] @ [3] :: byte list) = [1, 2, 3]" by simp
  show ?thesis
    using crc32_deterministic [THEN conjunct1]
      crc32_deterministic [THEN conjunct2, rule_format, OF eq]
    by (rule conjI)
qed

section \<open>Writing, then reading\<close>

text \<open>
  C1, amended.  Let the image be a signature followed by chunks, with an \<^verbatim>\<open>IHDR\<close> chunk that
  is preceded by no \<^verbatim>\<open>IHDR\<close>, no \<^verbatim>\<open>IEND\<close> and no recognized text chunk, and let it be held
  in an array that begins at byte 0 of its buffer (the buffer may be longer than the
  array).  Let the key be \<^verbatim>\<open>BananaProData\<close> or \<^verbatim>\<open>parameters\<close>, and let the value be a
  well-formed string that does not begin with U+FEFF and whose chunk data fits a 32-bit
  length.  Then reading what the writer returns gives back exactly the value.
\<close>

theorem roundtrip:
  assumes "byteOffset png = 0" and "elements png = png_bytes (pre @ ih # post)"
    and "\<forall>c\<in>set pre. wf_chunk c \<and> ctype c \<noteq> ascii ''IHDR'' \<and> ctype c \<noteq> ascii ''IEND''
                         \<and> \<not> recognized c"
    and "wf_chunk ih" and "ctype ih = ascii ''IHDR''"
    and "key = lit ''BananaProData'' \<or> key = lit ''parameters''"
    and "well_formed val" and "take 1 val \<noteq> [0xFEFF]"
    and "length (TextEncoder_encode key) + 1 + length (TextEncoder_encode val) < 2 ^ 32"
  shows "decode_encoded png key val = Inr (Some val)"
proof -
  have png: "png = at_start (png_bytes (pre @ ih # post)) (after png)"
    using assms(1,2) by (cases png) (simp add: byteOffset_def at_start_def)
  have "drop_bom val = val"
    using assms(8) by (cases val) (simp_all add: drop_bom_def)
  with decode_encoded_text [OF assms(3-6) assms(9), of post "after png"]
    text_roundtrip [OF assms(7)]
  have "decode_encoded (at_start (png_bytes (pre @ ih # post)) (after png)) key val
        = Inr (Some val)"
    by simp
  with png show ?thesis by simp
qed

text \<open>
  An instance: the minimal image and a value with a character of three bytes, a
  surrogate pair and a U+FEFF that is not at the start.
\<close>

theorem roundtrip_witness:
  "well_formed [0x20AC, 0xD83D, 0xDE00, 0xFEFF]
   \<and> decode_encoded (whole P0) (lit ''parameters'') [0x20AC, 0xD83D, 0xDE00, 0xFEFF]
       = Inr (Some [0x20AC, 0xD83D, 0xDE00, 0xFEFF])"
proof -
  let ?val = "[0x20AC, 0xD83D, 0xDE00, 0xFEFF] :: jsstring"
  have wf: "well_formed ?val" by (simp add: is_high_def is_low_def)
  have bom: "take 1 ?val \<noteq> [0xFEFF]" by simp
  have len: "length (TextEncoder_encode (lit ''parameters'')) + 1
             + length (TextEncoder_encode ?val) < 2 ^ 32"
    unfolding key_lengths
    by (simp add: TextEncoder_encode_def is_high_def is_low_def utf8_encode_cp_def)
  have pre: "\<forall>c\<in>set []. wf_chunk c \<and> ctype c \<noteq> ascii ''IHDR'' \<and> ctype c \<noteq> ascii ''IEND''
                         \<and> \<not> recognized c" by simp
  have key: "lit ''parameters'' = lit ''BananaProData'' \<or> lit ''parameters'' = lit ''parameters''"
    by simp
  have off: "byteOffset (whole P0) = 0" by simp
  have els: "elements (whole P0) = png_bytes ([] @ mk_chunk ''IHDR'' ihdr_data # [mk_chunk ''IEND'' []])"
    unfolding whole_simps by (rule P0_chunks(1))
  from roundtrip [OF off els pre P0_chunks(2,3) key wf bom len] wf
  show ?thesis by (rule conjI [rotated])
qed

text \<open>
  C1 as stated fails for a value that begins with U+FEFF: the decoder drops a leading
  byte order mark, so the string read back is shorter than the one written.
\<close>

theorem roundtrip_bom_counterexample:
  "well_formed [0xFEFF, 0x61]
   \<and> decode_encoded (whole P0) (lit ''BananaProData'') [0xFEFF, 0x61] = Inr (Some [0x61])
   \<and> decode_encoded (whole P0) (lit ''BananaProData'') [0xFEFF, 0x61]
       \<noteq> Inr (Some [0xFEFF, 0x61])"
proof -
  let ?val = "[0xFEFF, 0x61] :: jsstring"
  have wf: "well_formed ?val" by (simp add: is_high_def is_low_def)
  have len: "length (TextEncoder_encode (lit ''BananaProData'')) + 1
             + length (TextEncoder_encode ?val) < 2 ^ 32"
    unfolding key_lengths
    by (simp add: TextEncoder_encode_def is_high_def is_low_def utf8_encode_cp_def)
  have pre: "\<forall>c\<in>set []. wf_chunk c \<and> ctype c \<noteq> ascii ''IHDR'' \<and> ctype c \<noteq> ascii ''IEND''
                         \<and> \<not> recognized c" by simp
  have key: "lit ''BananaProData'' = lit ''BananaProData'' \<or> lit ''BananaProData'' = lit ''parameters''"
    by simp
  have "decode_encoded (whole P0) (lit ''BananaProData'') ?val
        = Inr (Some (TextDecoder_decode (TextEncoder_encode ?val)))"
    using decode_encoded_text [OF pre P0_chunks(2,3) key len, of "[mk_chunk ''IEND'' []]" "[]"]
    by (simp only: P0_chunks(1) [symmetric] whole_at_start)
  also have "TextDecoder_decode (TextEncoder_encode ?val) = drop_bom ?val"
    by (rule text_roundtrip [OF wf])
  also have "drop_bom ?val = [0x61]" by (simp add: drop_bom_def)
  finally show ?thesis using wf by simp
qed

section \<open>The inserted chunk\<close>

lemma getUint32_crc_field:
  "getUint32 (xs @ setUint32 (unat (w :: u32))) (length xs) = Inr (unat w)"
proof -
  have "unat w < 2 ^ 32" using unsigned_less [of w, where ?'a = nat] by simp
  from getUint32_setUint32 [OF this, of xs "[]"] show ?thesis by simp
qed

lemma getUint32_length_field:
  "n < 2 ^ 32 \<Longrightarrow> getUint32 (setUint32 n @ xs) 0 = Inr n"
  using getUint32_setUint32 [of n "[]" xs] by simp

text \<open>
  What the writer does to an image held in an array that begins at byte 0 of its buffer:
  for a signature and well-formed chunks, one of them of type \<^verbatim>\<open>IHDR\<close>, it returns the same
  chunks in the same order with exactly one new \<^verbatim>\<open>tEXt\<close> chunk directly after the first
  \<^verbatim>\<open>IHDR\<close> chunk: the bytes up to the end of that chunk's CRC, the new chunk, and the
  remaining bytes, all unchanged.
\<close>

lemma encode_at_start_preserves_chunks:
  assumes "\<forall>c\<in>set cs. wf_chunk c" and "\<exists>c\<in>set cs. ctype c = ascii ''IHDR''"
  shows "\<exists>pre ih post.
           cs = pre @ ih # post \<and> ctype ih = ascii ''IHDR''
           \<and> (\<forall>c\<in>set pre. ctype c \<noteq> ascii ''IHDR'')
           \<and> writePngMetadata (at_start (png_bytes cs) aft) key val
               = Inr (whole (png_bytes (pre @ ih # new_chunk key val # post)))
           \<and> ctype (new_chunk key val) = ascii ''tEXt''
           \<and> png_bytes (pre @ ih # new_chunk key val # post)
               = png_bytes (pre @ [ih]) @ tEXt_chunk key val @ chunks_bytes post
           \<and> png_bytes cs = png_bytes (pre @ [ih]) @ chunks_bytes post"
proof -
  from assms(2) obtain pre ih post
    where split: "cs = pre @ ih # post" "ctype ih = ascii ''IHDR''"
      "\<forall>c\<in>set pre. ctype c \<noteq> ascii ''IHDR''"
    using split_list_first_prop [of cs "\<lambda>c. ctype c = ascii ''IHDR''"] by blast
  have pre: "\<forall>c\<in>set pre. wf_chunk c \<and> ctype c \<noteq> ascii ''IHDR''"
    and ih: "wf_chunk ih"
    using assms(1) split by auto
  have "writePngMetadata (at_start (png_bytes cs) aft) key val
        = Inr (whole (png_bytes (pre @ ih # new_chunk key val # post)))"
    unfolding split(1) by (rule encode_inserts [OF pre ih split(2)])
  moreover have "ctype (new_chunk key val) = ascii ''tEXt''"
    by (simp add: new_chunk_def mk_chunk_def)
  moreover have "png_bytes (pre @ ih # new_chunk key val # post)
                 = png_bytes (pre @ [ih]) @ tEXt_chunk key val @ chunks_bytes post"
    by (simp add: png_bytes_def tEXt_chunk_serialize)
  moreover have "png_bytes cs = png_bytes (pre @ [ih]) @ chunks_bytes post"
    by (simp add: png_bytes_def split(1))
  ultimately show ?thesis using split by blast
qed

text \<open>
  C4.  The chunk the writer inserts is the big-endian length, the four bytes \<^verbatim>\<open>tEXt\<close>, the
  data and the big-endian checksum, where the data is the encoded key, a zero byte and
  the encoded value, the length field reads back as the byte length of the data, and the
  checksum field reads back as the checksum of \<^verbatim>\<open>tEXt\<close> followed by the data.  Whenever
  the writer returns something else than its input, it is a new array that holds the
  elements of the input with this chunk put in at some offset.
\<close>

theorem inserted_chunk_layout:
  "tEXt_chunk key val =
     setUint32 (length (TextEncoder_encode key @ [0] @ TextEncoder_encode val))
     @ [0x74, 0x45, 0x58, 0x74]
     @ (TextEncoder_encode key @ [0] @ TextEncoder_encode val)
     @ setUint32 (unat (crc32 ([0x74, 0x45, 0x58, 0x74]
                               @ (TextEncoder_encode key @ [0] @ TextEncoder_encode val))))
   \<and> (length (TextEncoder_encode key @ [0] @ TextEncoder_encode val) < 2 ^ 32 \<longrightarrow>
        getUint32 (tEXt_chunk key val) 0
        = Inr (length (TextEncoder_encode key @ [0] @ TextEncoder_encode val)))
   \<and> getUint32 (tEXt_chunk key val)
         (8 + length (TextEncoder_encode key @ [0] @ TextEncoder_encode val))
       = Inr (unat (crc32 ([0x74, 0x45, 0x58, 0x74]
                           @ (TextEncoder_encode key @ [0] @ TextEncoder_encode val))))
   \<and> (\<forall>png out. writePngMetadata png key val = Inr out \<and> out \<noteq> png \<longrightarrow>
        (\<exists>ip\<le>length (elements png).
           out = whole (take ip (elements png) @ tEXt_chunk key val @ drop ip (elements png))))"
proof -
  let ?data = "TextEncoder_encode key @ [0] @ TextEncoder_encode val"
  let ?crc = "crc32 ([0x74, 0x45, 0x58, 0x74] @ ?data)"
  have layout: "tEXt_chunk key val
                = setUint32 (length ?data) @ [0x74, 0x45, 0x58, 0x74] @ ?data @ setUint32 (unat ?crc)"
    by (rule tEXt_chunk_layout)
  have len: "length ?data < 2 ^ 32 \<longrightarrow> getUint32 (tEXt_chunk key val) 0 = Inr (length ?data)"
    unfolding layout by (auto intro: getUint32_length_field)
  have "getUint32 ((setUint32 (length ?data) @ [0x74, 0x45, 0x58, 0x74] @ ?data)
                   @ setUint32 (unat ?crc))
          (length (setUint32 (length ?data) @ [0x74, 0x45, 0x58, 0x74] @ ?data))
        = Inr (unat ?crc)"
    by (rule getUint32_crc_field)
  then have crc: "getUint32 (tEXt_chunk key val) (8 + length ?data) = Inr (unat ?crc)"
    unfolding layout by (simp add: add.commute)
  have ins: "\<forall>png out. writePngMetadata png key val = Inr out \<and> out \<noteq> png \<longrightarrow>
        (\<exists>ip\<le>length (elements png).
           out = whole (take ip (elements png) @ tEXt_chunk key val @ drop ip (elements png)))"
    using writePngMetadata_result by blast
  from layout len crc ins show ?thesis by blast
qed

section \<open>The concrete scenario\<close>

lemma mk_chunk_fields [simp]: "ctype (mk_chunk t d) = ascii t" "cdata (mk_chunk t d) = d"
  by (simp_all add: mk_chunk_def)

lemma length_P0: "length P0 = 45"
  unfolding P0_def png_bytes_def chunks_bytes_simps length_append
    length_serialize [OF P0_chunks(2)] length_serialize [OF P0_chunks(4)]
  by (simp add: ihdr_data_def)

lemma length_serialize_any: "length (serialize c) = 8 + length (ctype c) + length (cdata c)"
  by (simp add: serialize_def)

lemma length_ascii [simp]: "length (ascii s) = length s"
  by (simp add: ascii_def)

text \<open>An instance: key \<^verbatim>\<open>BananaProData\<close>, value \<^verbatim>\<open>{}\<close>, written into the minimal image.\<close>

theorem inserted_chunk_layout_witness:
  "getUint32 (tEXt_chunk (lit ''BananaProData'') (lit ''{}'')) 0 = Inr 16
   \<and> (\<exists>ip\<le>length P0.
        png_bytes [mk_chunk ''IHDR'' ihdr_data, new_chunk (lit ''BananaProData'') (lit ''{}''),
                   mk_chunk ''IEND'' []]
        = take ip P0 @ tEXt_chunk (lit ''BananaProData'') (lit ''{}'') @ drop ip P0)"
proof -
  let ?K = "lit ''BananaProData''" and ?V = "lit ''{}''"
  let ?out = "png_bytes [mk_chunk ''IHDR'' ihdr_data, new_chunk ?K ?V, mk_chunk ''IEND'' []]"
  note t = inserted_chunk_layout [of ?K ?V]
  have data: "length (TextEncoder_encode ?K @ [0] @ TextEncoder_encode ?V) = 16"
    by (simp add: key_lengths length_encode_lit)
  have enc: "writePngMetadata (whole P0) ?K ?V = Inr (whole ?out)"
    using encode_inserts [where pre = "[]" and ih = "mk_chunk ''IHDR'' ihdr_data"
        and post = "[mk_chunk ''IEND'' []]" and key = ?K and val = ?V and aft = "[]"]
    by (simp add: P0_chunks P0_def whole_at_start)
  have "length ?out \<noteq> length P0"
    by (simp add: P0_def png_bytes_def tEXt_chunk_serialize [symmetric] tEXt_chunk_layout)
  then have ne: "whole ?out \<noteq> whole P0" by (auto simp: whole_def)
  have 1: "getUint32 (tEXt_chunk ?K ?V) 0 = Inr 16"
    using t [THEN conjunct2, THEN conjunct1] data by simp
  have 2: "\<exists>ip\<le>length P0. ?out = take ip P0 @ tEXt_chunk ?K ?V @ drop ip P0"
    using t [THEN conjunct2, THEN conjunct2, THEN conjunct2, rule_format,
          of "whole P0" "whole ?out"] enc ne
    by (simp add: whole_def)
  from 1 2 show ?thesis by (rule conjI)
qed

text \<open>
  The checksum evaluated: the check value of CRC-32, the checksum of an empty \<^verbatim>\<open>IEND\<close>
  chunk, and with them the bytes of the minimal image and of the chunk written into it.
\<close>

lemma funpow8: "(f ^^ 8) x = f (f (f (f (f (f (f (f x)))))))"
  by (simp add: eval_nat_numeral)

lemma crc_table_lookup: "n < 256 \<Longrightarrow> crcTable ! n = crc_entry n"
  by (simp add: crcTable_def)

lemmas crc_eval = crc32_def crc_update_def crc_table_lookup crc_entry_def funpow8 crc_step_def
  ascii_def u8_def

lemma crc32_IEND: "crc32 (ascii ''IEND'') = 0xAE426082"
  by (simp add: crc_eval)

lemma crc32_check_value: "crc32 (ascii ''123456789'') = 0xCBF43926"
  by (simp add: crc_eval)

lemma P0_bytes:
  "P0 = [137, 80, 78, 71, 13, 10, 26, 10,
         0, 0, 0, 13, 73, 72, 68, 82, 0, 0, 0, 1, 0, 0, 0, 1, 8, 2, 0, 0, 0, 144, 119, 83, 222,
         0, 0, 0, 0, 73, 69, 78, 68, 174, 66, 96, 130]"
  by (simp add: P0_def png_bytes_def png_signature_def serialize_def mk_chunk_def ihdr_data_def
      setUint32_def crc_eval)

lemma V0_bytes:
  "TextEncoder_encode V0 = ascii ''{\"mega\":\"a castle\",\"lighting\":\"dawn\"}''"
  unfolding V0_def by (rule encode_lit) simp

lemma scenario_chunk_bytes:
  "tEXt_chunk (lit ''BananaProData'') V0 =
     [0, 0, 0, 51, 116, 69, 88, 116,
      66, 97, 110, 97, 110, 97, 80, 114, 111, 68, 97, 116, 97, 0,
      123, 34, 109, 101, 103, 97, 34, 58, 34, 97, 32, 99, 97, 115, 116, 108, 101, 34, 44,
      34, 108, 105, 103, 104, 116, 105, 110, 103, 34, 58, 34, 100, 97, 119, 110, 34, 125,
      179, 136, 9, 181]"
  unfolding tEXt_chunk_layout key_bytes V0_bytes
  by (simp add: setUint32_def crc_eval)

lemma scenario_output_bytes:
  "png_bytes [mk_chunk ''IHDR'' ihdr_data, new_chunk (lit ''BananaProData'') V0, mk_chunk ''IEND'' []]
   = E0"
proof -
  have "png_bytes [mk_chunk ''IHDR'' ihdr_data, new_chunk (lit ''BananaProData'') V0,
                   mk_chunk ''IEND'' []]
        = take 33 P0 @ tEXt_chunk (lit ''BananaProData'') V0 @ drop 33 P0"
    unfolding P0_def png_bytes_def chunks_bytes_simps tEXt_chunk_serialize
    by (simp add: length_serialize_any ihdr_data_def)
  also have "\<dots> = E0"
    unfolding P0_bytes scenario_chunk_bytes E0_def by simp
  finally show ?thesis .
qed

text \<open>
  C8.  For the minimal image \<open>P0\<close>, key \<^verbatim>\<open>BananaProData\<close> and the value
  \<^verbatim>\<open>{"mega":"a castle","lighting":"dawn"}\<close>, the writer returns the byte sequence \<open>E0\<close>,
  whose length is the length of \<open>P0\<close> plus 12 plus the length of the chunk data (108 bytes
  in all), and the reader returns exactly the value from it.
\<close>

theorem minimal_image_scenario:
  "writePngMetadata (whole P0) (lit ''BananaProData'') V0 = Inr (whole E0)
   \<and> length E0 = length P0 + 12
        + length (TextEncoder_encode (lit ''BananaProData'') @ [0] @ TextEncoder_encode V0)
   \<and> length E0 = 108
   \<and> extractPngMetadata E0 = Inr (Some V0)"
proof -
  let ?K = "lit ''BananaProData''"
  let ?ih = "mk_chunk ''IHDR'' ihdr_data" and ?ie = "mk_chunk ''IEND'' []"
  let ?out = "png_bytes ([] @ ?ih # new_chunk ?K V0 # [?ie])"
  have out: "?out = E0" using scenario_output_bytes by simp
  have pre: "\<forall>c\<in>set []. wf_chunk c \<and> ctype c \<noteq> ascii ''IHDR''" by simp
  have pre': "\<forall>c\<in>set []. wf_chunk c \<and> \<not> recognized c \<and> ctype c \<noteq> ascii ''IEND''" by simp
  have key: "?K = lit ''BananaProData'' \<or> ?K = lit ''parameters''" by simp
  have lenV: "length (TextEncoder_encode V0) = 37"
    unfolding V0_bytes by simp
  have len: "length (TextEncoder_encode ?K) + 1 + length (TextEncoder_encode V0) < 2 ^ 32"
    by (simp add: key_lengths lenV)
  have enc: "writePngMetadata (whole P0) ?K V0 = Inr (whole ?out)"
    using encode_inserts [OF pre P0_chunks(2,3), of "[?ie]" "[]" ?K V0]
    by (simp only: P0_chunks(1) [symmetric] whole_at_start)
  have "extractPngMetadata ?out = Inr (Some (TextDecoder_decode (TextEncoder_encode V0)))"
    by (rule decode_finds_new_chunk [OF pre' P0_chunks(2,3) key len])
  then have dec: "extractPngMetadata ?out = Inr (Some V0)"
    by (simp add: V0_def decode_encode_lit)
  have l': "length E0 = 108" by (simp add: E0_def)
  have l: "length E0 = length P0 + 12
              + length (TextEncoder_encode ?K @ [0] @ TextEncoder_encode V0)"
    unfolding l' by (simp add: length_P0 key_lengths lenV)
  from enc dec l l' show ?thesis unfolding out by simp
qed

text \<open>The same scenario as one composition of writer and reader.\<close>

theorem minimal_image_scenario_witness:
  "decode_encoded (whole P0) (lit ''BananaProData'') V0 = Inr (Some V0)"
  using minimal_image_scenario by (simp add: decode_encoded_def)

section \<open>Truncated input, absent payloads and skipped chunks\<close>

lemma next_offset_chunk:
  assumes wf: "wf_chunk c"
  shows "next_offset (pre @ serialize c @ rest) (length pre) =
     (case (if ctype c = ascii ''tEXt'' then tEXt_payload (cdata c) else None) of
        Some text \<Rightarrow> None
      | None \<Rightarrow>
          if ctype c = ascii ''IEND'' then None
          else Some (length pre + length (serialize c)))"
proof -
  define buf where "buf = pre @ serialize c @ rest"
  define off where "off = length pre"
  note f = chunk_fields [OF wf buf_def off_def]
  have next_off: "off + (12 + length (cdata c)) = off + length (serialize c)"
    by (simp add: length_serialize [OF wf])
  have "next_offset buf off =
     (case (if ctype c = ascii ''tEXt'' then tEXt_payload (cdata c) else None) of
        Some text \<Rightarrow> None
      | None \<Rightarrow>
          if ctype c = ascii ''IEND'' then None
          else Some (off + length (serialize c)))"
    unfolding next_offset_def f(1) sum.case Let_def
    unfolding f(2) f(3) fromCharCode_eq_lit next_off
    using f(4) by simp
  then show ?thesis unfolding buf_def off_def .
qed

lemma next_offset_end: "length buffer \<le> offset \<Longrightarrow> next_offset buffer offset = None"
  by (simp add: next_offset_def)

lemma visited_stop: "next_offset buffer offset = None \<Longrightarrow> visited buffer offset = [offset]"
  by (subst visited_unfold) simp

lemma visited_step:
  "next_offset buffer offset = Some n \<Longrightarrow> visited buffer offset = offset # visited buffer n"
  by (subst visited_unfold) simp

lemma visited_chunks:
  assumes "\<forall>c\<in>set cs. wf_chunk c \<and> \<not> recognized c"
  shows "visited (pre @ chunks_bytes cs) (length pre)
         = chunk_offsets (length pre) (takeWhile (\<lambda>c. ctype c \<noteq> ascii ''IEND'') cs)"
  using assms
proof (induction cs arbitrary: pre)
  case Nil
  then show ?case by (simp add: visited_stop next_offset_end)
next
  case (Cons c cs)
  then have c: "wf_chunk c" "\<not> recognized c" by simp_all
  have nxt: "next_offset (pre @ serialize c @ chunks_bytes cs) (length pre)
             = (if ctype c = ascii ''IEND'' then None
                else Some (length pre + length (serialize c)))"
    unfolding next_offset_chunk [OF c(1)] not_recognized_payload [OF c(2)] by simp
  show ?case
  proof (cases "ctype c = ascii ''IEND''")
    case True
    with nxt have "next_offset (pre @ serialize c @ chunks_bytes cs) (length pre) = None"
      by simp
    with True show ?thesis by (simp add: visited_stop)
  next
    case False
    with nxt have "next_offset (pre @ serialize c @ chunks_bytes cs) (length pre)
                   = Some (length pre + length (serialize c))"
      by simp
    then have "visited (pre @ serialize c @ chunks_bytes cs) (length pre)
               = length pre # visited ((pre @ serialize c) @ chunks_bytes cs)
                                (length (pre @ serialize c))"
      by (simp add: visited_step)
    also have "visited ((pre @ serialize c) @ chunks_bytes cs) (length (pre @ serialize c))
               = chunk_offsets (length (pre @ serialize c))
                   (takeWhile (\<lambda>c. ctype c \<noteq> ascii ''IEND'') cs)"
      using Cons.IH [of "pre @ serialize c"] Cons.prems by simp
    finally show ?thesis
      using False by (simp add: length_serialize [OF c(1)] add.assoc)
  qed
qed

lemma read_loop_truncated:
  assumes "offset + 8 > length buffer
           \<or> (\<exists>len. getUint32 buffer offset = Inr len \<and> offset + 8 + len + 4 > length buffer)"
  shows "read_loop buffer offset = Inr None" and "next_offset buffer offset = None"
proof -
  show "read_loop buffer offset = Inr None"
    using assms by (subst read_loop.simps) auto
  show "next_offset buffer offset = None"
    using assms by (auto simp: next_offset_def)
qed

lemma extract_is_read_loop:
  "getUint32 buffer 0 = Inr 0x89504E47 \<Longrightarrow> extractPngMetadata buffer = read_loop buffer 8"
  by (simp add: extractPngMetadata_def)

text \<open>
  C6.  Let the input have a valid signature.  If the walk of the reader reaches an offset
  where the 8-byte chunk header does not fit into the buffer, or where the declared
  length plus the 4-byte CRC would extend past the end of the buffer, then the walk stops
  there and the reader returns the absent value; it does not raise.
\<close>

theorem truncation_guard:
  assumes "getUint32 buffer 0 = Inr 0x89504E47"
    and "offset \<in> set (visited buffer 8)"
    and "offset + 8 > length buffer
         \<or> (\<exists>len. getUint32 buffer offset = Inr len \<and> offset + 8 + len + 4 > length buffer)"
  shows "extractPngMetadata buffer = Inr None \<and> last (visited buffer 8) = offset"
proof -
  from visited_walk [OF assms(2)] obtain ys
    where 1: "read_loop buffer 8 = read_loop buffer offset"
      and 2: "visited buffer 8 = ys @ visited buffer offset"
    by blast
  have "visited buffer offset = [offset]"
    by (rule visited_stop) (rule read_loop_truncated(2) [OF assms(3)])
  with 2 have "last (visited buffer 8) = offset" by simp
  moreover have "extractPngMetadata buffer = Inr None"
    using extract_is_read_loop [OF assms(1)] 1 read_loop_truncated(1) [OF assms(3)] by simp
  ultimately show ?thesis by simp
qed


lemma signature_magic: "getUint32 (png_signature @ xs) 0 = Inr 0x89504E47"
  by (simp add: getUint32_def png_signature_def)

lemma visited_head: "offset \<in> set (visited buffer offset)"
  by (subst visited_unfold) simp

text \<open>An instance: a chunk that declares 5 bytes of data and has only 2.\<close>

theorem truncation_guard_witness:
  "extractPngMetadata (png_signature @ [0, 0, 0, 5, 73, 68, 65, 84, 1, 2]) = Inr None
   \<and> last (visited (png_signature @ [0, 0, 0, 5, 73, 68, 65, 84, 1, 2]) 8) = 8"
proof -
  let ?buf = "png_signature @ [0, 0, 0, 5, 73, 68, 65, 84, 1, 2]"
  have len: "getUint32 ?buf 8 = Inr 5"
    by (simp add: getUint32_def png_signature_def)
  have "8 + 8 + 5 + 4 > length ?buf" by simp
  with len have trunc: "8 + 8 > length ?buf
      \<or> (\<exists>len. getUint32 ?buf 8 = Inr len \<and> 8 + 8 + len + 4 > length ?buf)"
    by blast
  show ?thesis
    by (rule truncation_guard [OF signature_magic visited_head trunc])
qed

lemma read_loop_stops_at_IEND:
  assumes "\<forall>c\<in>set cs. wf_chunk c \<and> \<not> recognized c"
    and "\<exists>c\<in>set cs. ctype c = ascii ''IEND''"
  shows "read_loop (pre @ chunks_bytes cs @ rest) (length pre) = Inr None"
  using assms
proof (induction cs arbitrary: pre)
  case Nil
  then show ?case by simp
next
  case (Cons c cs)
  then have c: "wf_chunk c" "\<not> recognized c" by simp_all
  have step: "read_loop (pre @ serialize c @ chunks_bytes cs @ rest) (length pre)
        = (if ctype c = ascii ''IEND'' then Inr None
           else read_loop (pre @ serialize c @ chunks_bytes cs @ rest)
                  (length pre + length (serialize c)))"
    by (simp add: read_loop_chunk [OF c(1)] not_recognized_payload [OF c(2)])
  show ?case
  proof (cases "ctype c = ascii ''IEND''")
    case True
    with step show ?thesis by simp
  next
    case False
    with Cons.prems have "\<exists>c\<in>set cs. ctype c = ascii ''IEND''" by simp
    with Cons.IH [of "pre @ serialize c"] Cons.prems
    have "read_loop ((pre @ serialize c) @ chunks_bytes cs @ rest) (length (pre @ serialize c))
          = Inr None"
      by simp
    with step False show ?thesis by simp
  qed
qed

lemma chunk_offsets_nonempty [simp]: "chunk_offsets off cs \<noteq> []"
  by (cases cs) simp_all

lemma last_chunk_offsets:
  "\<forall>c\<in>set cs. wf_chunk c \<Longrightarrow> last (chunk_offsets off cs) = off + length (chunks_bytes cs)"
  by (induction cs arbitrary: off) (simp_all add: length_serialize)

lemma read_loop_finds:
  assumes cs: "\<forall>c\<in>set cs. wf_chunk c \<and> \<not> recognized c \<and> ctype c \<noteq> ascii ''IEND''"
    and r: "wf_chunk r" "ctype r = ascii ''tEXt''"
      "cdata r = ascii ''parameters'' @ 0 # tail \<or> cdata r = ascii ''BananaProData'' @ 0 # tail"
  shows "read_loop (pre @ chunks_bytes (cs @ [r]) @ rest) (length pre)
         = Inr (Some (TextDecoder_decode tail))"
proof -
  let ?buf = "pre @ chunks_bytes cs @ serialize r @ rest"
  have nonull: "0 \<notin> set (ascii ''parameters'')" "0 \<notin> set (ascii ''BananaProData'')"
    by (simp_all add: ascii_def u8_def)
  have "tEXt_payload (ascii ''parameters'' @ 0 # tail) = Some (TextDecoder_decode tail)"
    by (rule named_payload [where s = "''parameters''"]) (simp_all add: nonull)
  moreover
  have "tEXt_payload (ascii ''BananaProData'' @ 0 # tail) = Some (TextDecoder_decode tail)"
    by (rule named_payload [where s = "''BananaProData''"]) (simp_all add: nonull)
  ultimately have payload: "tEXt_payload (cdata r) = Some (TextDecoder_decode tail)"
    using r(3) by auto
  have "read_loop ?buf (length pre) = read_loop ?buf (length pre + length (chunks_bytes cs))"
    by (rule read_loop_skip [OF cs])
  also have "\<dots> = read_loop ((pre @ chunks_bytes cs) @ serialize r @ rest)
                      (length (pre @ chunks_bytes cs))"
    by simp
  also have "\<dots> = Inr (Some (TextDecoder_decode tail))"
    by (simp only: read_loop_chunk [OF r(1)] r(2) payload refl if_True option.case)
  finally show ?thesis by simp
qed

text \<open>
  C7, amended.  For an image made of the signature and well-formed chunks, none of which
  is a text chunk whose keyword bytes are \<^verbatim>\<open>parameters\<close> or \<^verbatim>\<open>BananaProData\<close>, or one of
  these two names after the three bytes \<^verbatim>\<open>EF BB BF\<close> of a byte order mark, the reader
  returns the absent value and does not raise.  The offsets it visits are the starts of
  the chunks, each \<open>8 + length + 4\<close> after the one before, up to and including the first
  chunk of type \<^verbatim>\<open>IEND\<close> (or the end of the buffer when there is none).  The reader stops
  at an \<^verbatim>\<open>IEND\<close> chunk: whatever bytes follow such a chunk, the result is the absent value.
  When no chunk is of type \<^verbatim>\<open>IEND\<close>, the reader arrives at the offset right after the last
  chunk, whatever follows: its result is the result of the loop from that offset, and a
  text chunk with one of the two keywords that follows is found and its text returned.
\<close>

theorem absence_signal:
  assumes "\<forall>c\<in>set cs. wf_chunk c \<and> \<not> recognized c"
  shows "extractPngMetadata (png_bytes cs) = Inr None
         \<and> visited (png_bytes cs) 8
             = chunk_offsets 8 (takeWhile (\<lambda>c. ctype c \<noteq> ascii ''IEND'') cs)
         \<and> (\<forall>e rest. wf_chunk e \<and> ctype e = ascii ''IEND'' \<longrightarrow>
               extractPngMetadata (png_bytes (cs @ [e]) @ rest) = Inr None)
         \<and> ((\<forall>c\<in>set cs. ctype c \<noteq> ascii ''IEND'') \<longrightarrow>
               (\<forall>rest. extractPngMetadata (png_bytes cs @ rest)
                         = read_loop (png_bytes cs @ rest) (last (chunk_offsets 8 cs)))
               \<and> (\<forall>r tail rest.
                    wf_chunk r \<and> ctype r = ascii ''tEXt''
                    \<and> (cdata r = ascii ''parameters'' @ 0 # tail
                        \<or> cdata r = ascii ''BananaProData'' @ 0 # tail) \<longrightarrow>
                    extractPngMetadata (png_bytes (cs @ [r]) @ rest)
                    = Inr (Some (TextDecoder_decode tail))))"
proof -
  have "extractPngMetadata (png_bytes cs) = read_loop (png_signature @ chunks_bytes cs) 8"
    unfolding png_bytes_def by (rule extract_after_signature)
  also have "\<dots> = Inr None"
    using read_loop_none [OF assms, of png_signature] by simp
  finally have 1: "extractPngMetadata (png_bytes cs) = Inr None" .
  have 2: "visited (png_bytes cs) 8
           = chunk_offsets 8 (takeWhile (\<lambda>c. ctype c \<noteq> ascii ''IEND'') cs)"
    using visited_chunks [OF assms, of png_signature] by (simp add: png_bytes_def)
  have 3: "extractPngMetadata (png_bytes (cs @ [e]) @ rest) = Inr None"
    if e: "wf_chunk e \<and> ctype e = ascii ''IEND''" for e rest
  proof -
    have not: "\<not> recognized e" using e by (simp add: recognized_def ascii_def u8_def)
    have all: "\<forall>c\<in>set (cs @ [e]). wf_chunk c \<and> \<not> recognized c"
      using assms e not by simp
    have ex: "\<exists>c\<in>set (cs @ [e]). ctype c = ascii ''IEND''" using e by simp
    have "extractPngMetadata (png_bytes (cs @ [e]) @ rest)
          = read_loop (png_signature @ chunks_bytes (cs @ [e]) @ rest) 8"
      unfolding png_bytes_def append_assoc by (rule extract_after_signature)
    also have "\<dots> = Inr None"
      using read_loop_stops_at_IEND [OF all ex, of png_signature rest] by simp
    finally show ?thesis .
  qed
  have 4: "extractPngMetadata (png_bytes cs @ rest)
           = read_loop (png_bytes cs @ rest) (last (chunk_offsets 8 cs))"
    if no: "\<forall>c\<in>set cs. ctype c \<noteq> ascii ''IEND''" for rest
  proof -
    have skip: "\<forall>c\<in>set cs. wf_chunk c \<and> \<not> recognized c \<and> ctype c \<noteq> ascii ''IEND''"
      using assms no by simp
    have wf: "\<forall>c\<in>set cs. wf_chunk c" using assms by simp
    have "extractPngMetadata (png_signature @ chunks_bytes cs @ rest)
          = read_loop (png_signature @ chunks_bytes cs @ rest) 8"
      by (rule extract_after_signature)
    also have "\<dots> = read_loop (png_signature @ chunks_bytes cs @ rest)
                        (length png_signature + length (chunks_bytes cs))"
      using read_loop_skip [OF skip, of png_signature rest] by simp
    finally show ?thesis
      by (simp add: png_bytes_def last_chunk_offsets [OF wf])
  qed
  have 5: "extractPngMetadata (png_bytes (cs @ [r]) @ rest) = Inr (Some (TextDecoder_decode tail))"
    if no: "\<forall>c\<in>set cs. ctype c \<noteq> ascii ''IEND''"
      and r: "wf_chunk r \<and> ctype r = ascii ''tEXt''
              \<and> (cdata r = ascii ''parameters'' @ 0 # tail
                  \<or> cdata r = ascii ''BananaProData'' @ 0 # tail)"
    for r tail rest
  proof -
    have skip: "\<forall>c\<in>set cs. wf_chunk c \<and> \<not> recognized c \<and> ctype c \<noteq> ascii ''IEND''"
      using assms no by simp
    have "extractPngMetadata (png_bytes (cs @ [r]) @ rest)
          = read_loop (png_signature @ chunks_bytes (cs @ [r]) @ rest) 8"
      unfolding png_bytes_def append_assoc by (rule extract_after_signature)
    also have "\<dots> = Inr (Some (TextDecoder_decode tail))"
      using read_loop_finds [OF skip, of r tail png_signature rest] r by simp
    finally show ?thesis .
  qed
  from 1 2 3 4 5 show ?thesis by blast
qed

text \<open>
  An instance: a text chunk with keyword \<^verbatim>\<open>Comment\<close>; a chunk after \<^verbatim>\<open>IEND\<close> that is
  never visited, also when it is a text chunk with keyword \<^verbatim>\<open>parameters\<close>; and, without
  \<^verbatim>\<open>IEND\<close>, a text chunk with keyword \<^verbatim>\<open>parameters\<close> that is found behind the others.
\<close>

theorem absence_signal_witness:
  "extractPngMetadata
     (png_bytes [mk_chunk ''IHDR'' ihdr_data, mk_chunk ''tEXt'' (ascii ''Comment'' @ 0 # ascii ''hi''),
                 mk_chunk ''IEND'' [], mk_chunk ''IDAT'' [1, 2, 3]]) = Inr None
   \<and> visited
       (png_bytes [mk_chunk ''IHDR'' ihdr_data, mk_chunk ''tEXt'' (ascii ''Comment'' @ 0 # ascii ''hi''),
                   mk_chunk ''IEND'' [], mk_chunk ''IDAT'' [1, 2, 3]]) 8 = [8, 33, 55]
   \<and> extractPngMetadata
       (png_bytes ([mk_chunk ''IHDR'' ihdr_data,
                    mk_chunk ''tEXt'' (ascii ''Comment'' @ 0 # ascii ''hi'')]
                   @ [mk_chunk ''IEND'' []])
        @ serialize (mk_chunk ''tEXt'' (ascii ''parameters'' @ 0 # ascii ''x''))) = Inr None
   \<and> extractPngMetadata
       (png_bytes ([mk_chunk ''IHDR'' ihdr_data,
                    mk_chunk ''tEXt'' (ascii ''Comment'' @ 0 # ascii ''hi'')]
                   @ [mk_chunk ''tEXt'' (ascii ''parameters'' @ 0 # ascii ''x'')])
        @ [1, 2, 3]) = Inr (Some (lit ''x''))"
proof -
  let ?ih = "mk_chunk ''IHDR'' ihdr_data" and ?ie = "mk_chunk ''IEND'' []"
  let ?t = "mk_chunk ''tEXt'' (ascii ''Comment'' @ 0 # ascii ''hi'')"
  let ?r = "mk_chunk ''tEXt'' (ascii ''parameters'' @ 0 # ascii ''x'')"
  let ?cs = "[?ih, ?t, ?ie, mk_chunk ''IDAT'' [1, 2, 3]]"
  let ?ds = "[?ih, ?t]"
  have kw: "keyword_of (ascii ''Comment'' @ 0 # ascii ''hi'') = Some (ascii ''Comment'')"
    by (rule keyword_of_append) (simp add: ascii_def u8_def)
  have t: "\<not> recognized ?t"
    unfolding recognized_def named_def named_after_bom_def mk_chunk_fields kw
    by (simp add: ascii_def u8_def bom_def)
  have others: "\<not> recognized ?ih" "\<not> recognized ?ie"
    "\<not> recognized (mk_chunk ''IDAT'' [1, 2, 3])"
    by (simp_all add: recognized_def ascii_def u8_def)
  have wf: "wf_chunk ?t" "wf_chunk (mk_chunk ''IDAT'' [1, 2, 3])" "wf_chunk ?r"
    by (simp_all add: wf_chunk_def ascii_def)
  have hyp: "\<forall>c\<in>set ?cs. wf_chunk c \<and> \<not> recognized c"
    using t others wf P0_chunks(2,4) by simp
  have hyp': "\<forall>c\<in>set ?ds. wf_chunk c \<and> \<not> recognized c"
    using t others wf P0_chunks(2) by simp
  have no: "\<forall>c\<in>set ?ds. ctype c \<noteq> ascii ''IEND''"
    by (simp add: ascii_def u8_def)
  have tw: "takeWhile (\<lambda>c. ctype c \<noteq> ascii ''IEND'') ?cs = [?ih, ?t]"
    by (simp add: ascii_def u8_def)
  have offs: "chunk_offsets 8 [?ih, ?t] = [8, 33, 55]"
    by (simp add: ihdr_data_def ascii_def)
  note a = absence_signal [OF hyp]
  note b = absence_signal [OF hyp']
  have 1: "extractPngMetadata (png_bytes ?cs) = Inr None"
    by (rule a [THEN conjunct1])
  have 2: "visited (png_bytes ?cs) 8 = [8, 33, 55]"
    using a [THEN conjunct2, THEN conjunct1] unfolding tw offs .
  have 3: "extractPngMetadata (png_bytes (?ds @ [?ie]) @ serialize ?r) = Inr None"
    using b [THEN conjunct2, THEN conjunct2, THEN conjunct1, rule_format, of ?ie "serialize ?r"]
      P0_chunks(4,5) by simp
  have "extractPngMetadata (png_bytes (?ds @ [?r]) @ [1, 2, 3])
        = Inr (Some (TextDecoder_decode (ascii ''x'')))"
    using mp [OF b [THEN conjunct2, THEN conjunct2, THEN conjunct2] no,
        THEN conjunct2, rule_format, of ?r "ascii ''x''" "[1, 2, 3]"] wf(3)
    by simp
  also have "TextDecoder_decode (ascii ''x'') = lit ''x''"
    by (rule decode_ascii) simp
  finally have 4: "extractPngMetadata (png_bytes (?ds @ [?r]) @ [1, 2, 3]) = Inr (Some (lit ''x''))" .
  from 1 2 3 4 show ?thesis by (intro conjI)
qed

text \<open>
  C7 as stated fails for a text chunk whose keyword bytes are a byte order mark followed
  by \<^verbatim>\<open>parameters\<close>: these 13 bytes are neither of the two names, yet the decoder drops the
  mark, the reader compares the rest with the names and returns the text of the chunk.
\<close>

theorem absence_signal_bom_counterexample:
  "keyword_of (bom @ ascii ''parameters'' @ 0 # ascii ''x'') = Some (bom @ ascii ''parameters'')
   \<and> bom @ ascii ''parameters'' \<noteq> ascii ''parameters''
   \<and> bom @ ascii ''parameters'' \<noteq> ascii ''BananaProData''
   \<and> extractPngMetadata
       (png_bytes [mk_chunk ''IHDR'' ihdr_data,
                   mk_chunk ''tEXt'' (bom @ ascii ''parameters'' @ 0 # ascii ''x''),
                   mk_chunk ''IEND'' []]) = Inr (Some (lit ''x''))"
proof -
  let ?ih = "mk_chunk ''IHDR'' ihdr_data" and ?ie = "mk_chunk ''IEND'' []"
  let ?k = "bom @ ascii ''parameters''"
  let ?r = "mk_chunk ''tEXt'' (bom @ ascii ''parameters'' @ 0 # ascii ''x'')"
  let ?pre = "png_signature @ serialize ?ih"
  have nonull: "0 \<notin> set ?k" by (simp add: bom_def ascii_def u8_def)
  have 1: "keyword_of (bom @ ascii ''parameters'' @ 0 # ascii ''x'') = Some ?k"
    using keyword_of_append [OF nonull, of "ascii ''x''"] by simp
  have 2: "?k \<noteq> ascii ''parameters''" "?k \<noteq> ascii ''BananaProData''"
    by (simp_all add: bom_def ascii_def u8_def)
  have wf: "wf_chunk ?r" by (simp add: wf_chunk_def ascii_def bom_def)
  have "tEXt_payload (?k @ 0 # ascii ''x'') = Some (TextDecoder_decode (ascii ''x''))"
    by (rule named_payload [where s = "''parameters''"])
       (simp_all add: bom_def ascii_def u8_def)
  then have payload: "tEXt_payload (cdata ?r) = Some (TextDecoder_decode (ascii ''x''))"
    by simp
  have skip: "\<forall>c\<in>set [?ih]. wf_chunk c \<and> \<not> recognized c \<and> ctype c \<noteq> ascii ''IEND''"
    using P0_chunks(2,3) by (simp add: IHDR_not_recognized type_names_differ)
  have "extractPngMetadata (png_bytes [?ih, ?r, ?ie])
        = read_loop (png_signature @ chunks_bytes [?ih] @ serialize ?r @ serialize ?ie) 8"
    unfolding png_bytes_def using extract_after_signature [of "chunks_bytes [?ih, ?r, ?ie]"]
    by simp
  also have "\<dots> = read_loop (png_signature @ chunks_bytes [?ih] @ serialize ?r @ serialize ?ie)
                      (length png_signature + length (chunks_bytes [?ih]))"
    using read_loop_skip [OF skip, of png_signature "serialize ?r @ serialize ?ie"] by simp
  also have "\<dots> = read_loop ((png_signature @ chunks_bytes [?ih]) @ serialize ?r @ serialize ?ie)
                      (length (png_signature @ chunks_bytes [?ih]))"
    by simp
  also have "\<dots> = Inr (Some (TextDecoder_decode (ascii ''x'')))"
    by (simp only: read_loop_chunk [OF wf] mk_chunk_fields(1) payload refl if_True option.case)
  also have "TextDecoder_decode (ascii ''x'') = lit ''x''"
    by (rule decode_ascii) simp
  finally have 3: "extractPngMetadata (png_bytes [?ih, ?r, ?ie]) = Inr (Some (lit ''x''))" .
  from 1 2 3 show ?thesis by (intro conjI)
qed

text \<open>
  C10.  Let the input have a valid signature and let the walk of the reader reach a
  complete chunk of type \<^verbatim>\<open>tEXt\<close> whose data has no zero byte.  Then this chunk yields no
  payload, the walk goes on to the offset right after the chunk, and the result of the
  reader is the result of the loop from there.
\<close>

theorem text_chunk_without_zero_skipped:
  assumes "getUint32 buffer 0 = Inr 0x89504E47"
    and "offset \<in> set (visited buffer 8)"
    and "offset + 8 \<le> length buffer"
    and "getUint32 buffer offset = Inr len"
    and "offset + 8 + len + 4 \<le> length buffer"
    and "fromCharCode (slice buffer (offset + 4) (offset + 8)) = lit ''tEXt''"
    and "0 \<notin> set (slice buffer (offset + 8) (offset + 8 + len))"
  shows "tEXt_payload (slice buffer (offset + 8) (offset + 8 + len)) = None
         \<and> offset + 8 + len + 4 \<in> set (visited buffer 8)
         \<and> extractPngMetadata buffer = read_loop buffer (offset + 8 + len + 4)"
proof -
  have none: "tEXt_payload (slice buffer (offset + 8) (offset + 8 + len)) = None"
    by (simp add: tEXt_payload_def nullIndex_none [OF assms(7)])
  have "lit ''tEXt'' \<noteq> lit ''IEND''" by (simp add: lit_def u16_def)
  with assms(3-6) none
  have nxt: "next_offset buffer offset = Some (offset + 8 + len + 4)"
    by (simp add: next_offset_def Let_def)
  from visited_walk [OF assms(2)] obtain ys
    where 1: "read_loop buffer 8 = read_loop buffer offset"
      and 2: "visited buffer 8 = ys @ visited buffer offset"
    by blast
  have "visited buffer 8 = ys @ offset # visited buffer (offset + 8 + len + 4)"
    using 2 visited_step [OF nxt] by simp
  then have mem: "offset + 8 + len + 4 \<in> set (visited buffer 8)"
    using visited_head [of "offset + 8 + len + 4" buffer] by simp
  have "extractPngMetadata buffer = read_loop buffer (offset + 8 + len + 4)"
    using extract_is_read_loop [OF assms(1)] 1 read_loop_next [OF nxt] by simp
  with none mem show ?thesis by simp
qed

text \<open>
  An instance: a text chunk without a zero byte, followed by one with keyword
  \<^verbatim>\<open>parameters\<close>, whose text is returned.
\<close>

theorem text_chunk_without_zero_skipped_witness:
  "extractPngMetadata
     (png_signature @ serialize (mk_chunk ''tEXt'' (ascii ''hello''))
      @ serialize (mk_chunk ''tEXt'' (ascii ''parameters'' @ 0 # ascii ''abc'')))
   = Inr (Some (lit ''abc''))"
proof -
  let ?c = "mk_chunk ''tEXt'' (ascii ''hello'')"
  let ?d = "mk_chunk ''tEXt'' (ascii ''parameters'' @ 0 # ascii ''abc'')"
  let ?buf = "png_signature @ serialize ?c @ serialize ?d"
  have wf: "wf_chunk ?c" "wf_chunk ?d" by (simp_all add: wf_chunk_def ascii_def)
  note f = chunk_fields [OF wf(1), of ?buf png_signature "serialize ?d" 8]
  have len: "getUint32 ?buf 8 = Inr 5" using f(1) by (simp add: ascii_def)
  have fits: "8 + 8 \<le> length ?buf" "8 + 8 + 5 + 4 \<le> length ?buf"
    by (simp_all add: length_serialize_any)
  have type: "fromCharCode (slice ?buf (8 + 4) (8 + 8)) = lit ''tEXt''"
    using f(2) by (simp add: fromCharCode_eq_lit)
  have data: "slice ?buf (8 + 8) (8 + 8 + 5) = ascii ''hello''"
    using f(3) by (simp add: ascii_def)
  have nonull: "0 \<notin> set (slice ?buf (8 + 8) (8 + 8 + 5))"
    unfolding data by (simp add: ascii_def u8_def)
  from text_chunk_without_zero_skipped
    [OF signature_magic visited_head fits(1) len fits(2) type nonull]
  have "extractPngMetadata ?buf = read_loop ?buf (8 + 8 + 5 + 4)" by simp
  also have "8 + 8 + 5 + 4 = length (png_signature @ serialize ?c)"
    by (simp add: length_serialize_any)
  also have "read_loop ?buf (length (png_signature @ serialize ?c))
             = read_loop ((png_signature @ serialize ?c) @ serialize ?d @ [])
                 (length (png_signature @ serialize ?c))"
    by simp
  also have "\<dots> = Inr (Some (TextDecoder_decode (ascii ''abc'')))"
    unfolding read_loop_chunk [OF wf(2)]
    by (simp add: tEXt_payload_def nullIndex_append key_no_null slice_def slice_from_def
        decode_ascii)
  also have "TextDecoder_decode (ascii ''abc'') = lit ''abc''"
    by (rule decode_ascii) simp
  finally show ?thesis .
qed

section \<open>Where the codec raises\<close>

text \<open>
  The reader never raises inside its loop, which checks every read against the length
  of the buffer first.  Its first read, of the signature, is not checked.
\<close>

lemma read_loop_no_error: "read_loop buffer offset \<noteq> Inl e"
proof (induction buffer offset rule: read_loop.induct)
  case (1 buffer offset)
  show ?case
  proof (cases "next_offset buffer offset")
    case None
    then show ?thesis by (rule read_loop_stop)
  next
    case (Some n)
    then have "read_loop buffer offset = read_loop buffer n" by (rule read_loop_next)
    moreover from Some have "read_loop buffer n \<noteq> Inl e"
      using "1.IH"
      by (auto simp: next_offset_def Let_def split: if_splits sum.splits option.splits)
    ultimately show ?thesis by simp
  qed
qed

lemma decode_raises_only_below_4_bytes:
  "extractPngMetadata buffer = Inl e \<longleftrightarrow> length buffer < 4"
  by (cases e) (auto simp: extractPngMetadata_def getUint32_def read_loop_no_error)

text \<open>
  C2.  The specification states that neither the writer nor the reader ever raises.  The
  code raises
  \<^verbatim>\<open>RangeError\<close> in three places: the reader on a buffer of fewer than 4 bytes (the read
  of the signature); the writer when fewer than 4 bytes are left at the offset of a
  chunk header (\<^verbatim>\<open>getUint32\<close> in its scan, which checks only \<open>pos < length\<close>); and the
  writer when the \<^verbatim>\<open>IHDR\<close> chunk declares more data than the buffer holds (the insertion
  point lies beyond the input and \<^verbatim>\<open>set\<close> rejects it).
\<close>

theorem codec_raises_RangeError:
  "extractPngMetadata [137, 80, 78] = Inl RangeError
   \<and> writePngMetadata (whole (png_signature @ [0])) key val = Inl RangeError
   \<and> writePngMetadata (whole (png_signature @ [0, 0, 0, 200, 73, 72, 68, 82])) key val
       = Inl RangeError"
proof -
  have 1: "extractPngMetadata [137, 80, 78] = Inl RangeError"
    by (simp add: extractPngMetadata_def getUint32_def)
  have "writePngMetadata (whole (png_signature @ [0])) key val
        = write_loop (whole (png_signature @ [0])) (tEXt_chunk key val) 8"
    by (rule write_after_signature) simp
  also have "\<dots> = Inl RangeError"
    by (subst write_loop.simps) (simp add: getUint32_def)
  finally have 2: "writePngMetadata (whole (png_signature @ [0])) key val = Inl RangeError" .
  have "writePngMetadata (whole (png_signature @ [0, 0, 0, 200, 73, 72, 68, 82])) key val
        = write_loop (whole (png_signature @ [0, 0, 0, 200, 73, 72, 68, 82]))
            (tEXt_chunk key val) 8"
    by (rule write_after_signature) simp
  also have "\<dots> = Inl RangeError"
    by (subst write_loop.simps)
       (simp add: getUint32_def png_signature_def slice_def fromCharCode_eq_lit ascii_def u8_def)
  finally have 3: "writePngMetadata (whole (png_signature @ [0, 0, 0, 200, 73, 72, 68, 82]))
                     key val = Inl RangeError" .
  from 1 2 3 show ?thesis by blast
qed

text \<open>The second input with a concrete key and value.\<close>

theorem codec_raises_RangeError_witness:
  "writePngMetadata (whole (png_signature @ [0])) (lit ''BananaProData'') (lit ''{}'')
   = Inl RangeError"
  using codec_raises_RangeError [of "lit ''BananaProData''" "lit ''{}''"]
  by (rule conjunct2 [THEN conjunct1])

text \<open>
  C5.  The specification states that the writer returns its input unchanged whenever the
  signature is wrong or no \<^verbatim>\<open>IHDR\<close> chunk occurs before the end of the stream.  That holds for a wrong
  signature (\<open>encode_unchanged_bad_signature\<close>) and for a stream of complete chunks
  (\<open>encode_unchanged_no_IHDR\<close>).  With a valid signature, one complete \<^verbatim>\<open>IDAT\<close> chunk and
  two stray bytes after it, there is no \<^verbatim>\<open>IHDR\<close> chunk either, and the writer raises.
\<close>

theorem encode_raises_on_stray_bytes:
  "writePngMetadata (whole (png_bytes [mk_chunk ''IDAT'' [1, 2, 3]] @ [0, 0])) key val
   = Inl RangeError"
proof -
  let ?c = "mk_chunk ''IDAT'' [1, 2, 3]"
  let ?buf = "png_signature @ chunks_bytes [?c] @ [0, 0]"
  have c: "\<forall>c\<in>set [?c]. wf_chunk c \<and> ctype c \<noteq> ascii ''IHDR''"
    by (simp add: wf_chunk_def ascii_def u8_def)
  have "writePngMetadata (at_start ?buf []) key val
        = write_loop (at_start ?buf []) (tEXt_chunk key val) 8"
    by (rule write_after_signature) simp
  also have "\<dots> = write_loop (at_start ?buf []) (tEXt_chunk key val)
                     (length png_signature + length (chunks_bytes [?c]))"
    using write_loop_skip [OF c, of png_signature "[0, 0]" "[]" "tEXt_chunk key val"] by simp
  also have "\<dots> = Inl RangeError"
    by (subst write_loop.simps) (simp add: getUint32_def length_serialize_any)
  finally show ?thesis by (simp add: png_bytes_def whole_at_start)
qed

text \<open>The same input with the empty key and value.\<close>

theorem encode_raises_on_stray_bytes_witness:
  "writePngMetadata (whole (png_bytes [mk_chunk ''IDAT'' [1, 2, 3]] @ [0, 0])) [] []
   = Inl RangeError"
  by (rule encode_raises_on_stray_bytes)

section \<open>An array inside a larger buffer\<close>

text \<open>
  The scan of the writer takes the type of a chunk from the array it was given and the
  length of the chunk from the buffer under the array, at the same position:
  \<^verbatim>\<open>new DataView(originalPng.buffer).getUint32(pos)\<close> counts \<open>pos\<close> from the start of the
  buffer and not from the start of the array.  The two agree for an array that begins at
  byte 0 of its buffer (\<open>encode_at_start_preserves_chunks\<close>).
\<close>

lemma writePngMetadata_P0:
  "elements png = P0 \<Longrightarrow> writePngMetadata png key val = write_loop png (tEXt_chunk key val) 8"
  by (simp add: writePngMetadata_def P0_bytes byte_at_def Let_def)

text \<open>
  C3.  The specification states that for every well-formed image with an \<^verbatim>\<open>IHDR\<close> chunk
  the writer returns the chunks of the image unchanged and in order, with one new text
  chunk directly after the \<^verbatim>\<open>IHDR\<close> chunk.  The code does so only for an array at byte 0 of
  its buffer.  For the minimal image \<open>P0\<close> held in an array that begins at byte 4 of its
  buffer the writer reads the length of the \<^verbatim>\<open>IHDR\<close> chunk from bytes 4 to 7 of the
  image, which belong to the signature, and raises.  Held at byte 12 behind zero bytes,
  the length read is 0 and the new chunk is put at offset 20, inside the data of the
  \<^verbatim>\<open>IHDR\<close> chunk, where the same image held at byte 0 gets it at offset 33, after the
  chunk.
\<close>

theorem encode_reads_length_outside_array:
  "writePngMetadata (Uint8Array [0, 0, 0, 0] P0 []) key val = Inl RangeError
   \<and> writePngMetadata (Uint8Array [0, 0, 0, 0, 0, 0, 0, 0, 0, 0, 0, 0] P0 []) key val
       = Inr (whole (take 20 P0 @ tEXt_chunk key val @ drop 20 P0))
   \<and> writePngMetadata (whole P0) key val
       = Inr (whole (take 33 P0 @ tEXt_chunk key val @ drop 33 P0))"
proof -
  have "writePngMetadata (Uint8Array [0, 0, 0, 0] P0 []) key val
        = write_loop (Uint8Array [0, 0, 0, 0] P0 []) (tEXt_chunk key val) 8"
    by (rule writePngMetadata_P0) simp
  also have "\<dots> = Inl RangeError"
    by (subst write_loop.simps)
       (simp add: buffer_of_def P0_bytes getUint32_def slice_def fromCharCode_eq_lit ascii_def
          u8_def)
  finally have 1: "writePngMetadata (Uint8Array [0, 0, 0, 0] P0 []) key val = Inl RangeError" .
  have "writePngMetadata (Uint8Array [0, 0, 0, 0, 0, 0, 0, 0, 0, 0, 0, 0] P0 []) key val
        = write_loop (Uint8Array [0, 0, 0, 0, 0, 0, 0, 0, 0, 0, 0, 0] P0 []) (tEXt_chunk key val) 8"
    by (rule writePngMetadata_P0) simp
  also have "\<dots> = Inr (whole (take 20 P0 @ tEXt_chunk key val @ drop 20 P0))"
    by (subst write_loop.simps)
       (simp add: buffer_of_def P0_bytes getUint32_def slice_def slice_from_def
          fromCharCode_eq_lit ascii_def u8_def)
  finally have 2: "writePngMetadata (Uint8Array [0, 0, 0, 0, 0, 0, 0, 0, 0, 0, 0, 0] P0 []) key val
                   = Inr (whole (take 20 P0 @ tEXt_chunk key val @ drop 20 P0))" .
  have "writePngMetadata (whole P0) key val = write_loop (whole P0) (tEXt_chunk key val) 8"
    by (rule writePngMetadata_P0) simp
  also have "\<dots> = Inr (whole (take 33 P0 @ tEXt_chunk key val @ drop 33 P0))"
    by (subst write_loop.simps)
       (simp add: P0_bytes getUint32_def slice_def slice_from_def fromCharCode_eq_lit ascii_def
          u8_def)
  finally have 3: "writePngMetadata (whole P0) key val
                   = Inr (whole (take 33 P0 @ tEXt_chunk key val @ drop 33 P0))" .
  from 1 2 3 show ?thesis by (intro conjI)
qed

text \<open>The first of these inputs with a concrete key and value.\<close>

theorem encode_reads_length_outside_array_witness:
  "writePngMetadata (Uint8Array [0, 0, 0, 0] P0 []) (lit ''BananaProData'') V0 = Inl RangeError"
  using encode_reads_length_outside_array [of "lit ''BananaProData''" V0] by (rule conjunct1)

end
